theory Spec2Isabelle
  imports Main "HOL-Library.Multiset"
begin

section \<open>The merge stage of a distributed ORDER BY: \<open>mergereceiveexecutor.cpp\<close>\<close>

text \<open>
  The executor receives the already sorted result batches of the partitions, stages them in
  one temp table, remembers how many rows every batch contributed and merges the staged rows
  into the output table. The embedding follows the C++ source function by function.

  Modelling decisions.
  \<^item> A \<open>TableTuple\<close> is a value of an arbitrary type \<open>'row\<close>; the \<open>TupleComparer\<close> is a
    parameter \<open>cmp :: 'row \<Rightarrow> 'row \<Rightarrow> bool\<close> (``strictly before'').
  \<^item> A \<open>tuple_iterator\<close> into \<open>tuples\<close> is its distance from \<open>tuples.begin()\<close>, an \<open>int\<close>
    (the counts are \<open>int64_t\<close> and may be anything). Reading through an iterator that does
    not point at an element is undefined in C++; here it is the error \<open>InvalidIterator\<close>.
  \<^item> The \<open>std::list<tuple_range>\<close> is a list of pairs; a \<open>range_iterator\<close> is an index into it.
  \<^item> A failing \<open>assert\<close> is the error \<open>AssertionFailed\<close>.
  \<^item> The output table is the list of the rows inserted so far, the progress monitor is the
    number of \<open>countdownProgress\<close> calls made so far.
  \<^item> Inserting into the output table and counting down succeed: no temp table limit is hit
    and the host does not cancel the stage.
  \<^item> The counters of type \<open>int\<close> are unbounded integers: fewer than \<open>2^31\<close> rows are staged,
    so none of them overflows.
  \<^item> The comparator parameter is written \<open>cmp\<close>, since \<open>comp\<close> is function composition in HOL.
\<close>

subsection \<open>Iterators, ranges and errors\<close>

datatype error = AssertionFailed | InvalidIterator

type_synonym tuple_iterator = int
type_synonym tuple_range = "tuple_iterator \<times> tuple_iterator"

definition deref :: "'row list \<Rightarrow> tuple_iterator \<Rightarrow> error + 'row" where
  "deref tuples it =
     (if 0 \<le> it \<and> it < int (length tuples) then Inr (tuples ! nat it) else Inl InvalidIterator)"

subsection \<open>\<open>min_tuple_range\<close> (lines 74--88)\<close>

text \<open>
  The \<open>for\<close> loop of \<open>min_tuple_range\<close>: \<open>rs\<close> are the ranges from \<open>rangeIt\<close> to the end of the
  list, \<open>i\<close> is the position of \<open>rangeIt\<close>, and \<open>smallest\<close> is \<open>smallest_range\<close>, as its
  position together with the range it points at.
\<close>

fun scan_ranges ::
  "'row list \<Rightarrow> ('row \<Rightarrow> 'row \<Rightarrow> bool) \<Rightarrow> tuple_range list \<Rightarrow> nat \<Rightarrow> nat \<times> tuple_range
     \<Rightarrow> error + nat" where
  "scan_ranges tuples cmp [] i smallest = Inr (fst smallest)"
| "scan_ranges tuples cmp (r # rs) i smallest =
     (if fst r = snd r then Inl AssertionFailed
      else case deref tuples (fst r) of
             Inl e \<Rightarrow> Inl e
           | Inr a \<Rightarrow>
              (case deref tuples (fst (snd smallest)) of
                 Inl e \<Rightarrow> Inl e
               | Inr b \<Rightarrow>
                  scan_ranges tuples cmp rs (Suc i) (if cmp a b then (i, r) else smallest)))"

definition min_tuple_range ::
  "'row list \<Rightarrow> ('row \<Rightarrow> 'row \<Rightarrow> bool) \<Rightarrow> tuple_range list \<Rightarrow> error + nat" where
  "min_tuple_range tuples cmp ps =
     (case ps of
        [] \<Rightarrow> Inl AssertionFailed
      | p # rest \<Rightarrow> scan_ranges tuples cmp rest 1 (0, p))"

subsection \<open>\<open>merge_sort\<close> (lines 90--152)\<close>

text \<open>The local variables of \<open>merge_sort\<close> together with the two objects it writes to.\<close>

record 'row merge_state =
  partitions :: "tuple_range list"
  nonEmptyPartitions :: nat
  tupleCnt :: int
  tupleSkipped :: int
  output_table :: "'row list"
  pmp :: nat

text \<open>
  Lines 107--113: one range per entry of \<open>partitionTupleCounts\<close>. \<open>len\<close> is \<open>tuples.end()\<close>,
  \<open>b\<close> is the running \<open>begin\<close>; the assertion is checked at the last entry only.
\<close>

fun make_ranges :: "int \<Rightarrow> tuple_iterator \<Rightarrow> int list \<Rightarrow> error + tuple_range list" where
  "make_ranges len b [] = Inr []"
| "make_ranges len b (c # cs) =
     (let e = b + c in
      if cs = [] \<and> e \<noteq> len then Inl AssertionFailed
      else case make_ranges len e cs of
             Inl err \<Rightarrow> Inl err
           | Inr rs \<Rightarrow> Inr ((b, e) # rs))"

text \<open>
  Lines 118--127: the pass that erases the exhausted ranges and counts
  \<open>nonEmptyPartitions\<close> down. The counter is a \<open>size_t\<close>; it is decremented once per erased
  range and starts as the number of ranges, so it stays the length of the list and never
  passes zero (lemmas \<open>erase_exhausted_eq\<close> and \<open>loop_inv_erase_pass\<close>).
\<close>

fun erase_exhausted :: "tuple_range list \<Rightarrow> nat \<Rightarrow> tuple_range list \<times> nat" where
  "erase_exhausted [] n = ([], n)"
| "erase_exhausted (r # rs) n =
     (if fst r = snd r then erase_exhausted rs (n - 1)
      else (case erase_exhausted rs n of (rs', n') \<Rightarrow> (r # rs', n')))"

text \<open>
  Lines 130--140, the drain of the one remaining range, which is the first of the list.
  \<open>tupleSkipped++ < offset\<close> compares the old value and increments in both branches; a
  skipped row is neither inserted nor counted down. \<open>tupleCnt\<close> is read and never written.
\<close>

function drain :: "'row list \<Rightarrow> int \<Rightarrow> int \<Rightarrow> 'row merge_state \<Rightarrow> error + 'row merge_state" where
  "drain tuples limit offset st =
     (case partitions st of
        [] \<Rightarrow> Inl InvalidIterator
      | r # rs \<Rightarrow>
          if fst r \<noteq> snd r \<and> (limit = -1 \<or> tupleCnt st < limit) then
            (case deref tuples (fst r) of
               Inl e \<Rightarrow> Inl e
             | Inr tuple \<Rightarrow>
                 if tupleSkipped st < offset then
                   drain tuples limit offset
                     (st\<lparr>partitions := (fst r + 1, snd r) # rs,
                         tupleSkipped := tupleSkipped st + 1\<rparr>)
                 else
                   drain tuples limit offset
                     (st\<lparr>partitions := (fst r + 1, snd r) # rs,
                         tupleSkipped := tupleSkipped st + 1,
                         output_table := output_table st @ [tuple],
                         pmp := pmp st + 1\<rparr>))
          else Inr st)"
  by pat_completeness auto
termination
  by (relation "measure (\<lambda>(tuples, limit, offset, st).
                  nat (int (length tuples) - fst (hd (partitions st))))")
     (auto simp: deref_def split: if_splits)

text \<open>
  Lines 143--150, the selection step: the range with the smallest first row is looked for,
  its first row is inserted and counted down, and its cursor moves on by one. The position
  \<open>k\<close> that \<open>min_tuple_range\<close> returns is inside the list (lemma \<open>min_tuple_range_bound\<close>).
\<close>

definition emit_smallest ::
  "'row list \<Rightarrow> ('row \<Rightarrow> 'row \<Rightarrow> bool) \<Rightarrow> 'row merge_state \<Rightarrow> error + 'row merge_state" where
  "emit_smallest tuples cmp st =
     (case min_tuple_range tuples cmp (partitions st) of
        Inl e \<Rightarrow> Inl e
      | Inr k \<Rightarrow>
         (let minRange = partitions st ! k in
          case deref tuples (fst minRange) of
            Inl e \<Rightarrow> Inl e
          | Inr tuple \<Rightarrow>
              Inr (st\<lparr>output_table := output_table st @ [tuple],
                      pmp := pmp st + 1,
                      partitions := (partitions st)[k := (fst minRange + 1, snd minRange)]\<rparr>)))"

text \<open>
  One pass through the body of \<open>while (true)\<close> (lines 118--150): it either returns from
  \<open>merge_sort\<close> or goes round again.
\<close>

datatype 'a flow = Return 'a | Continue 'a

definition erase_pass :: "'row merge_state \<Rightarrow> 'row merge_state" where
  "erase_pass st =
     (case erase_exhausted (partitions st) (nonEmptyPartitions st) of
        (ps, n) \<Rightarrow> st\<lparr>partitions := ps, nonEmptyPartitions := n\<rparr>)"

definition loop_body ::
  "'row list \<Rightarrow> ('row \<Rightarrow> 'row \<Rightarrow> bool) \<Rightarrow> int \<Rightarrow> int \<Rightarrow> 'row merge_state
     \<Rightarrow> error + 'row merge_state flow" where
  "loop_body tuples cmp limit offset st =
     (let st1 = erase_pass st in
      if nonEmptyPartitions st1 = 1 then
        (case drain tuples limit offset st1 of
           Inl e \<Rightarrow> Inl e
         | Inr st' \<Rightarrow> Inr (Return st'))
      else
        (case emit_smallest tuples cmp st1 of
           Inl e \<Rightarrow> Inl e
         | Inr st' \<Rightarrow> Inr (Continue st')))"

text \<open>
  The loop goes round again only after it has read a row through one cursor and moved that
  cursor on, so the rows still in front of the cursors become fewer with every pass.
\<close>

definition rows_ahead :: "'row list \<Rightarrow> tuple_range list \<Rightarrow> nat" where
  "rows_ahead tuples ps = (\<Sum>r\<leftarrow>ps. nat (int (length tuples) - fst r))"

lemma scan_ranges_bound:
  "scan_ranges tuples cmp rs i sm = Inr k \<Longrightarrow> fst sm < i \<Longrightarrow> k < i + length rs"
proof (induction rs arbitrary: i sm)
  case Nil
  then show ?case by simp
next
  case (Cons r rs)
  from Cons.prems(1) obtain a b where
    step: "scan_ranges tuples cmp rs (Suc i) (if cmp a b then (i, r) else sm) = Inr k"
    by (auto split: if_splits sum.splits)
  have "fst (if cmp a b then (i, r) else sm) < Suc i"
    using Cons.prems(2) by simp
  from Cons.IH [OF step this] show ?case by simp
qed

lemma min_tuple_range_bound:
  "min_tuple_range tuples cmp ps = Inr k \<Longrightarrow> k < length ps"
  by (cases ps) (auto simp: min_tuple_range_def dest: scan_ranges_bound)

lemma erase_exhausted_eq:
  "erase_exhausted ps n =
     (filter (\<lambda>r. fst r \<noteq> snd r) ps, n - length (filter (\<lambda>r. fst r = snd r) ps))"
  by (induction ps arbitrary: n) auto

lemma rows_ahead_erase:
  "erase_exhausted ps n = (ps', n') \<Longrightarrow> rows_ahead tuples ps' \<le> rows_ahead tuples ps"
  unfolding rows_ahead_def erase_exhausted_eq by (auto simp: sum_list_filter_le_nat)

lemma rows_ahead_advance:
  assumes "k < length ps" and "deref tuples (fst (ps ! k)) = Inr t"
  shows "rows_ahead tuples (ps[k := (fst (ps ! k) + 1, snd (ps ! k))]) < rows_ahead tuples ps"
proof -
  let ?g = "\<lambda>r::tuple_range. nat (int (length tuples) - fst r)"
  from assms(2) have in_range: "0 \<le> fst (ps ! k)" "fst (ps ! k) < int (length tuples)"
    by (auto simp: deref_def split: if_splits)
  have split: "ps = take k ps @ ps ! k # drop (Suc k) ps"
    using assms(1) by (simp add: id_take_nth_drop)
  have upd: "ps[k := (fst (ps ! k) + 1, snd (ps ! k))]
               = take k ps @ (fst (ps ! k) + 1, snd (ps ! k)) # drop (Suc k) ps"
    using assms(1) by (simp add: upd_conv_take_nth_drop)
  have "sum_list (map ?g (ps[k := (fst (ps ! k) + 1, snd (ps ! k))]))
          = sum_list (map ?g (take k ps)) + ?g (fst (ps ! k) + 1, snd (ps ! k))
            + sum_list (map ?g (drop (Suc k) ps))"
    by (subst upd) simp
  moreover have "sum_list (map ?g ps)
          = sum_list (map ?g (take k ps)) + ?g (ps ! k) + sum_list (map ?g (drop (Suc k) ps))"
    by (subst split) simp
  moreover have "?g (fst (ps ! k) + 1, snd (ps ! k)) < ?g (ps ! k)"
    using in_range by simp
  ultimately show ?thesis
    unfolding rows_ahead_def by linarith
qed

lemma emit_smallest_rows_ahead:
  assumes "emit_smallest tuples cmp st = Inr st'"
  shows "rows_ahead tuples (partitions st') < rows_ahead tuples (partitions st)"
proof -
  from assms obtain k t where
    k: "min_tuple_range tuples cmp (partitions st) = Inr k" and
    t: "deref tuples (fst (partitions st ! k)) = Inr t" and
    st': "partitions st' =
            (partitions st)[k := (fst (partitions st ! k) + 1, snd (partitions st ! k))]"
    by (auto simp: emit_smallest_def Let_def split: sum.splits)
  from rows_ahead_advance [OF min_tuple_range_bound [OF k] t] st'
  show ?thesis by simp
qed

lemma erase_pass_rows_ahead:
  "rows_ahead tuples (partitions (erase_pass st)) \<le> rows_ahead tuples (partitions st)"
  using rows_ahead_erase [of "partitions st" "nonEmptyPartitions st" _ _ tuples]
  by (auto simp: erase_pass_def split: prod.splits)

lemma loop_body_Continue_rows_ahead:
  assumes "loop_body tuples cmp limit offset st = Inr (Continue st')"
  shows "rows_ahead tuples (partitions st') < rows_ahead tuples (partitions st)"
proof -
  from assms have "emit_smallest tuples cmp (erase_pass st) = Inr st'"
    by (auto simp: loop_body_def Let_def split: if_splits sum.splits)
  from emit_smallest_rows_ahead [OF this] erase_pass_rows_ahead [of tuples st]
  show ?thesis by simp
qed

text \<open>The \<open>while (true)\<close> loop of lines 117--151.\<close>

function merge_loop ::
  "'row list \<Rightarrow> ('row \<Rightarrow> 'row \<Rightarrow> bool) \<Rightarrow> int \<Rightarrow> int \<Rightarrow> 'row merge_state
     \<Rightarrow> error + 'row merge_state" where
  "merge_loop tuples cmp limit offset st =
     (case loop_body tuples cmp limit offset st of
        Inl e \<Rightarrow> Inl e
      | Inr (Return st') \<Rightarrow> Inr st'
      | Inr (Continue st') \<Rightarrow> merge_loop tuples cmp limit offset st')"
  by pat_completeness auto
termination
  by (relation "measure (\<lambda>(tuples, cmp, limit, offset, st). rows_ahead tuples (partitions st))")
     (auto dest: loop_body_Continue_rows_ahead)

text \<open>
  The same loop cut off after \<open>fuel\<close> passes through its body: \<open>None\<close> when the passes
  allowed did not reach a \<open>return\<close>.
\<close>

fun merge_loop_bounded ::
  "nat \<Rightarrow> 'row list \<Rightarrow> ('row \<Rightarrow> 'row \<Rightarrow> bool) \<Rightarrow> int \<Rightarrow> int \<Rightarrow> 'row merge_state
     \<Rightarrow> (error + 'row merge_state) option" where
  "merge_loop_bounded 0 tuples cmp limit offset st = None"
| "merge_loop_bounded (Suc fuel) tuples cmp limit offset st =
     (case loop_body tuples cmp limit offset st of
        Inl e \<Rightarrow> Some (Inl e)
      | Inr (Return st') \<Rightarrow> Some (Inr st')
      | Inr (Continue st') \<Rightarrow> merge_loop_bounded fuel tuples cmp limit offset st')"

text \<open>
  Lines 102--116: the state in which the loop is entered. \<open>out\<close> and \<open>p\<close> are the output
  table and the progress monitor as \<open>merge_sort\<close> receives them.
\<close>

definition initial_state ::
  "'row list \<Rightarrow> int list \<Rightarrow> 'row list \<Rightarrow> nat \<Rightarrow> error + 'row merge_state" where
  "initial_state tuples partitionTupleCounts out p =
     (case make_ranges (int (length tuples)) 0 partitionTupleCounts of
        Inl e \<Rightarrow> Inl e
      | Inr ps \<Rightarrow>
          Inr \<lparr>partitions = ps, nonEmptyPartitions = length partitionTupleCounts,
               tupleCnt = 0, tupleSkipped = 0, output_table = out, pmp = p\<rparr>)"

text \<open>
  \<open>merge_sort\<close> itself. It returns nothing; the model returns the state at the \<open>return\<close>,
  which holds the output table and the progress monitor. At the early return of line 99
  the locals do not exist yet and are given as empty.
\<close>

definition merge_sort ::
  "'row list \<Rightarrow> int list \<Rightarrow> ('row \<Rightarrow> 'row \<Rightarrow> bool) \<Rightarrow> int \<Rightarrow> int \<Rightarrow> 'row list \<Rightarrow> nat
     \<Rightarrow> error + 'row merge_state" where
  "merge_sort tuples partitionTupleCounts cmp limit offset out p =
     (if partitionTupleCounts = [] then
        Inr \<lparr>partitions = [], nonEmptyPartitions = 0, tupleCnt = 0, tupleSkipped = 0,
             output_table = out, pmp = p\<rparr>
      else case initial_state tuples partitionTupleCounts out p of
             Inl e \<Rightarrow> Inl e
           | Inr st \<Rightarrow> merge_loop tuples cmp limit offset st)"

subsection \<open>The general path of the specification, without the fast path\<close>

text \<open>
  Section 4.3 of the specification words the merge as: (a) remove the exhausted partitions,
  (b) stop when the Partition Set is empty, (c) drain a single remaining partition,
  (d) select the partition with the smallest first row, (e) emit that row and advance,
  (f) repeat. \<open>kway_merge\<close> is that loop with step (c) left out, so that a single
  partition goes through the selection of steps (d) and (e) as well. It is written from
  the specification and uses the source's \<open>erase_pass\<close> and \<open>emit_smallest\<close> for (a), (d), (e).
\<close>

definition kway_body ::
  "'row list \<Rightarrow> ('row \<Rightarrow> 'row \<Rightarrow> bool) \<Rightarrow> 'row merge_state \<Rightarrow> error + 'row merge_state flow" where
  "kway_body tuples cmp st =
     (let st1 = erase_pass st in
      if partitions st1 = [] then Inr (Return st1)
      else (case emit_smallest tuples cmp st1 of
              Inl e \<Rightarrow> Inl e
            | Inr st' \<Rightarrow> Inr (Continue st')))"

lemma kway_body_Continue_rows_ahead:
  assumes "kway_body tuples cmp st = Inr (Continue st')"
  shows "rows_ahead tuples (partitions st') < rows_ahead tuples (partitions st)"
proof -
  from assms have "emit_smallest tuples cmp (erase_pass st) = Inr st'"
    by (auto simp: kway_body_def Let_def split: if_splits sum.splits)
  from emit_smallest_rows_ahead [OF this] erase_pass_rows_ahead [of tuples st]
  show ?thesis by simp
qed

function kway_loop ::
  "'row list \<Rightarrow> ('row \<Rightarrow> 'row \<Rightarrow> bool) \<Rightarrow> 'row merge_state \<Rightarrow> error + 'row merge_state" where
  "kway_loop tuples cmp st =
     (case kway_body tuples cmp st of
        Inl e \<Rightarrow> Inl e
      | Inr (Return st') \<Rightarrow> Inr st'
      | Inr (Continue st') \<Rightarrow> kway_loop tuples cmp st')"
  by pat_completeness auto
termination
  by (relation "measure (\<lambda>(tuples, cmp, st). rows_ahead tuples (partitions st))")
     (auto dest: kway_body_Continue_rows_ahead)

definition kway_merge ::
  "'row list \<Rightarrow> int list \<Rightarrow> ('row \<Rightarrow> 'row \<Rightarrow> bool) \<Rightarrow> 'row list \<Rightarrow> nat
     \<Rightarrow> error + 'row merge_state" where
  "kway_merge tuples partitionTupleCounts cmp out p =
     (case initial_state tuples partitionTupleCounts out p of
        Inl e \<Rightarrow> Inl e
      | Inr st \<Rightarrow> kway_loop tuples cmp st)"

subsection \<open>The loading loop of \<open>p_execute\<close> (lines 197--219)\<close>

text \<open>
  Modelled from the spec: \<open>VoltDBEngine::loadNextDependency\<close>, the transport that delivers
  the batches, is not part of the source file. The specification (4.2 and 6) describes it
  as an operation that appends the rows of the next available batch to the destination
  buffer and tells whether there was one. The engine is the list of the answers it will
  give: the rows an answer appends and the number it returns. When no answer is left it
  appends nothing and returns 0, the ``no more dependencies'' condition.
\<close>

type_synonym 'row engine = "('row list \<times> int) list"

definition loadNextDependency :: "'row engine \<Rightarrow> 'row list \<Rightarrow> int \<times> 'row engine \<times> 'row list" where
  "loadNextDependency eng table =
     (case eng of
        [] \<Rightarrow> (0, [], table)
      | (rows, loaded) # rest \<Rightarrow> (loaded, rest, table @ rows))"

text \<open>
  The \<open>do ... while (loadedDeps > 0)\<close> loop. \<open>table\<close> is \<open>m_tmpInputTable\<close>, whose
  \<open>activeTupleCount\<close> is its length.
\<close>

function load_dependencies ::
  "'row engine \<Rightarrow> 'row list \<Rightarrow> int \<Rightarrow> int list \<Rightarrow> 'row engine \<times> 'row list \<times> int list" where
  "load_dependencies eng table previousTupleCount partitionTupleCounts =
     (case loadNextDependency eng table of
        (loadedDeps, eng', table') \<Rightarrow>
          let currentTupleCount = int (length table');
              grown = (currentTupleCount \<noteq> previousTupleCount);
              counts' = (if grown
                         then partitionTupleCounts @ [currentTupleCount - previousTupleCount]
                         else partitionTupleCounts);
              previous' = (if grown then currentTupleCount else previousTupleCount)
          in if loadedDeps > 0 then load_dependencies eng' table' previous' counts'
             else (eng', table', counts'))"
  by pat_completeness auto
termination
  by (relation "measure (\<lambda>(eng, table, previousTupleCount, partitionTupleCounts). length eng)")
     (auto simp: loadNextDependency_def split: list.splits)

subsection \<open>Notions used to state the properties\<close>

text \<open>The rows of \<open>tuples\<close> that a range still holds, from its cursor to its end.\<close>

definition slice :: "'row list \<Rightarrow> tuple_range \<Rightarrow> 'row list" where
  "slice tuples r = take (nat (snd r - fst r)) (drop (nat (fst r)) tuples)"

text \<open>
  For \<open>k\<close> partitions given as row sequences, the staging buffer holds them one after the
  other and the Boundary List holds their lengths.
\<close>

definition staged :: "'row list list \<Rightarrow> 'row list" where
  "staged parts = concat parts"

definition boundaries :: "'row list list \<Rightarrow> int list" where
  "boundaries parts = map (\<lambda>part. int (length part)) parts"

text \<open>
  The Boundary List as the loader leaves it: every entry positive, and the entries add up
  to the number of staged rows.
\<close>

definition wellformed :: "'row list \<Rightarrow> int list \<Rightarrow> bool" where
  "wellformed tuples partitionTupleCounts \<longleftrightarrow>
     list_all (\<lambda>c. 0 < c) partitionTupleCounts \<and>
     sum_list partitionTupleCounts = int (length tuples)"

text \<open>
  The comparator is a strict weak ordering: nothing is before itself or before something
  that is before it, and ``not before'' is transitive.
\<close>

definition strict_weak_order :: "('row \<Rightarrow> 'row \<Rightarrow> bool) \<Rightarrow> bool" where
  "strict_weak_order cmp \<longleftrightarrow>
     (\<forall>a b. cmp a b \<longrightarrow> \<not> cmp b a) \<and> (\<forall>a b c. \<not> cmp b a \<longrightarrow> \<not> cmp c b \<longrightarrow> \<not> cmp c a)"

text \<open>A sequence is sorted under the comparator when no row is before an earlier one.\<close>

definition sorted_under :: "('row \<Rightarrow> 'row \<Rightarrow> bool) \<Rightarrow> 'row list \<Rightarrow> bool" where
  "sorted_under cmp xs = sorted_wrt (\<lambda>a b. \<not> cmp b a) xs"

text \<open>
  The rows read through the cursors so far: all staged rows but those still held by a range.
\<close>

definition rows_consumed :: "'row list \<Rightarrow> 'row merge_state \<Rightarrow> int" where
  "rows_consumed tuples st = int (length tuples) - (\<Sum>r\<leftarrow>partitions st. snd r - fst r)"

text \<open>
  \<open>min_tuple_range_called tuples cmp limit offset st ps\<close>: the loop, entered in state \<open>st\<close>,
  calls \<open>min_tuple_range\<close> with the list \<open>ps\<close>, in this pass or in a later one. A pass calls
  it, with the list left by the erasing pass, unless it takes the fast path.
\<close>

inductive min_tuple_range_called ::
  "'row list \<Rightarrow> ('row \<Rightarrow> 'row \<Rightarrow> bool) \<Rightarrow> int \<Rightarrow> int \<Rightarrow> 'row merge_state \<Rightarrow> tuple_range list \<Rightarrow> bool"
  for tuples cmp limit offset where
  this_pass:
    "nonEmptyPartitions (erase_pass st) \<noteq> 1 \<Longrightarrow>
     min_tuple_range_called tuples cmp limit offset st (partitions (erase_pass st))"
| later_pass:
    "loop_body tuples cmp limit offset st = Inr (Continue st') \<Longrightarrow>
     min_tuple_range_called tuples cmp limit offset st' ps \<Longrightarrow>
     min_tuple_range_called tuples cmp limit offset st ps"

text \<open>
  A range lies inside \<open>tuples\<close> with its cursor not behind its end; \<open>cursor_row\<close> is the row
  at its cursor.
\<close>

definition valid_range :: "'row list \<Rightarrow> tuple_range \<Rightarrow> bool" where
  "valid_range tuples r \<longleftrightarrow> 0 \<le> fst r \<and> fst r \<le> snd r \<and> snd r \<le> int (length tuples)"

definition cursor_row :: "'row list \<Rightarrow> tuple_range \<Rightarrow> 'row" where
  "cursor_row tuples r = tuples ! nat (fst r)"

text \<open>
  What holds of the state whenever the loop is entered (\<open>loop_inv\<close>) and after the erasing
  pass (\<open>live\<close>).
\<close>

definition loop_inv :: "'row list \<Rightarrow> 'row merge_state \<Rightarrow> bool" where
  "loop_inv tuples st \<longleftrightarrow>
     list_all (valid_range tuples) (partitions st) \<and>
     nonEmptyPartitions st = length (partitions st) \<and>
     (\<exists>r\<in>set (partitions st). fst r \<noteq> snd r)"

definition live :: "'row list \<Rightarrow> 'row merge_state \<Rightarrow> bool" where
  "live tuples st \<longleftrightarrow>
     list_all (\<lambda>r. valid_range tuples r \<and> fst r \<noteq> snd r) (partitions st) \<and>
     nonEmptyPartitions st = length (partitions st) \<and> partitions st \<noteq> []"

text \<open>The state after the selection step has emitted the first row of range \<open>k\<close>.\<close>

definition emit_at :: "'row list \<Rightarrow> 'row merge_state \<Rightarrow> nat \<Rightarrow> 'row merge_state" where
  "emit_at tuples st k =
     st\<lparr>output_table := output_table st @ [cursor_row tuples (partitions st ! k)],
        pmp := pmp st + 1,
        partitions := (partitions st)[k := (fst (partitions st ! k) + 1, snd (partitions st ! k))]\<rparr>"

text \<open>
  The batches of the answers that the loading loop takes from the engine: it asks again
  only after an answer that returned a positive number.
\<close>

fun answered :: "'row engine \<Rightarrow> 'row list list" where
  "answered [] = []"
| "answered ((rows, loaded) # rest) = rows # (if loaded > 0 then answered rest else [])"

text \<open>
  The comparator of the tie scenario of the specification: rows are pairs, and the key is
  the first field only.
\<close>

definition first_field_less :: "int \<times> string \<Rightarrow> int \<times> string \<Rightarrow> bool" where
  "first_field_less a b \<longleftrightarrow> fst a < fst b"

text \<open>
  The pairs of a row of one partition and a row of a partition that comes later in the
  list, for partitions given as row sequences.
\<close>

fun earlier_pairs :: "'row list list \<Rightarrow> ('row \<times> 'row) set" where
  "earlier_pairs [] = {}"
| "earlier_pairs (xs # xss) = (set xs \<times> set (concat xss)) \<union> earlier_pairs xss"

declare drain.simps [simp del]
declare merge_loop.simps [simp del]
declare kway_loop.simps [simp del]
declare load_dependencies.simps [simp del]

section \<open>Properties\<close>

subsection \<open>Running the model on given rows\<close>

lemmas run_simps = merge_sort_def initial_state_def staged_def boundaries_def
  merge_loop.simps loop_body_def erase_pass_def emit_smallest_def min_tuple_range_def
  drain.simps deref_def

subsection \<open>Ranges and the rows they hold\<close>

lemma slice_empty_iff:
  "valid_range tuples r \<Longrightarrow> slice tuples r = [] \<longleftrightarrow> fst r = snd r"
  by (auto simp: valid_range_def slice_def)

lemma length_slice:
  "valid_range tuples r \<Longrightarrow> int (length (slice tuples r)) = snd r - fst r"
  by (auto simp: valid_range_def slice_def)

lemma deref_cursor:
  "valid_range tuples r \<Longrightarrow> fst r \<noteq> snd r \<Longrightarrow> deref tuples (fst r) = Inr (cursor_row tuples r)"
  by (auto simp: valid_range_def deref_def cursor_row_def)

lemma deref_Inr_cursor:
  "deref tuples (fst r) = Inr t \<Longrightarrow> t = cursor_row tuples r"
  by (auto simp: deref_def cursor_row_def split: if_splits)

lemma valid_range_advance:
  "valid_range tuples r \<Longrightarrow> fst r \<noteq> snd r \<Longrightarrow> valid_range tuples (fst r + 1, snd r)"
  by (auto simp: valid_range_def)

lemma slice_advance:
  assumes "valid_range tuples r" and "fst r \<noteq> snd r"
  shows "slice tuples r = cursor_row tuples r # slice tuples (fst r + 1, snd r)"
proof -
  from assms have lt: "nat (fst r) < length tuples" and pos: "0 \<le> fst r" "fst r < snd r"
    by (auto simp: valid_range_def)
  define m where "m = nat (snd r - (fst r + 1))"
  have m: "nat (snd r - fst r) = Suc m" "nat (snd r - (fst r + 1)) = m"
    using pos unfolding m_def by linarith+
  have "drop (nat (fst r)) tuples = tuples ! nat (fst r) # drop (Suc (nat (fst r))) tuples"
    using lt by (simp add: Cons_nth_drop_Suc)
  moreover have "nat (fst r + 1) = Suc (nat (fst r))"
    using pos by (simp add: nat_add_distrib)
  ultimately show ?thesis
    by (simp add: slice_def cursor_row_def m)
qed

lemma make_ranges_parts:
  "\<exists>ps. make_ranges (int (length (pre @ concat parts))) (int (length pre)) (boundaries parts)
           = Inr ps
       \<and> list_all (valid_range (pre @ concat parts)) ps
       \<and> map (slice (pre @ concat parts)) ps = parts"
proof (induction parts arbitrary: pre)
  case Nil
  show ?case by (simp add: boundaries_def)
next
  case (Cons x xs)
  let ?tuples = "pre @ concat (x # xs)"
  from Cons.IH [of "pre @ x"] obtain ps where
    ps: "make_ranges (int (length ?tuples)) (int (length (pre @ x))) (boundaries xs) = Inr ps"
        "list_all (valid_range ?tuples) ps" "map (slice ?tuples) ps = xs"
    by auto
  let ?r = "(int (length pre), int (length pre) + int (length x))"
  have "boundaries xs = [] \<Longrightarrow> xs = []"
    by (simp add: boundaries_def)
  then have "make_ranges (int (length ?tuples)) (int (length pre)) (boundaries (x # xs))
               = Inr (?r # ps)"
    using ps(1) by (auto simp: boundaries_def Let_def)
  moreover have "valid_range ?tuples ?r"
    by (simp add: valid_range_def)
  moreover have "slice ?tuples ?r = x"
    by (simp add: slice_def)
  ultimately show ?case
    using ps(2,3) by simp
qed

lemma sum_list_pos_nonneg: "list_all (\<lambda>c. 0 < c) cs \<Longrightarrow> 0 \<le> sum_list (cs::int list)"
  by (induction cs) auto

lemma wellformed_parts:
  "wellformed tuples counts \<Longrightarrow>
     \<exists>parts. tuples = staged parts \<and> counts = boundaries parts \<and> [] \<notin> set parts"
proof (induction counts arbitrary: tuples)
  case Nil
  then show ?case
    by (auto simp: wellformed_def staged_def boundaries_def intro: exI [of _ "[]"])
next
  case (Cons c cs)
  from Cons.prems have c: "0 < c" and cs: "list_all (\<lambda>c. 0 < c) cs"
    and sum: "c + sum_list cs = int (length tuples)"
    by (auto simp: wellformed_def)
  from sum sum_list_pos_nonneg [OF cs] have le: "nat c \<le> length tuples" by linarith
  have "wellformed (drop (nat c) tuples) cs"
    using cs sum c le by (auto simp: wellformed_def)
  from Cons.IH [OF this] obtain parts where
    parts: "drop (nat c) tuples = staged parts" "cs = boundaries parts" "[] \<notin> set parts"
    by auto
  let ?parts = "take (nat c) tuples # parts"
  have "tuples = staged ?parts"
    using parts(1) by (simp add: staged_def) (metis append_take_drop_id)
  moreover have "c # cs = boundaries ?parts"
    using parts(2) c le by (simp add: boundaries_def)
  moreover have "[] \<notin> set ?parts"
    using parts(3) c le by auto
  ultimately show ?case by blast
qed

lemma partitions_erase_pass:
  "partitions (erase_pass st) = filter (\<lambda>r. fst r \<noteq> snd r) (partitions st)"
  by (simp add: erase_pass_def erase_exhausted_eq)

lemma nonEmptyPartitions_erase_pass:
  "nonEmptyPartitions (erase_pass st) =
     nonEmptyPartitions st - length (filter (\<lambda>r. fst r = snd r) (partitions st))"
  by (simp add: erase_pass_def erase_exhausted_eq)

lemma erase_pass_fields [simp]:
  "output_table (erase_pass st) = output_table st"
  "pmp (erase_pass st) = pmp st"
  "tupleSkipped (erase_pass st) = tupleSkipped st"
  by (simp_all add: erase_pass_def split: prod.splits)

lemma loop_inv_erase_pass:
  assumes "loop_inv tuples st"
  shows "live tuples (erase_pass st)"
proof -
  let ?ps = "partitions st"
  have "length ?ps = length (filter (\<lambda>r. fst r = snd r) ?ps)
          + length (filter (\<lambda>r. fst r \<noteq> snd r) ?ps)"
    using sum_length_filter_compl [of "\<lambda>r. fst r = snd r" ?ps] by simp
  then have "nonEmptyPartitions (erase_pass st) = length (partitions (erase_pass st))"
    using assms by (simp add: loop_inv_def partitions_erase_pass nonEmptyPartitions_erase_pass)
  moreover have "partitions (erase_pass st) \<noteq> []"
    using assms by (auto simp: loop_inv_def partitions_erase_pass filter_empty_conv)
  moreover have "list_all (\<lambda>r. valid_range tuples r \<and> fst r \<noteq> snd r) (partitions (erase_pass st))"
    using assms by (auto simp: loop_inv_def partitions_erase_pass list_all_iff)
  ultimately show ?thesis by (simp add: live_def)
qed

lemma concat_slices_filter:
  "list_all (valid_range tuples) ps \<Longrightarrow>
   concat (map (slice tuples) (filter (\<lambda>r. fst r \<noteq> snd r) ps)) = concat (map (slice tuples) ps)"
  by (induction ps) (auto simp: slice_empty_iff)

lemma concat_slices_erase_pass:
  "list_all (valid_range tuples) (partitions st) \<Longrightarrow>
   concat (map (slice tuples) (partitions (erase_pass st))) = concat (map (slice tuples) (partitions st))"
  unfolding partitions_erase_pass by (rule concat_slices_filter)

subsection \<open>The selection\<close>

lemma scan_ranges_succeeds:
  "list_all (\<lambda>r. valid_range tuples r \<and> fst r \<noteq> snd r) rs \<Longrightarrow>
   valid_range tuples (snd sm) \<Longrightarrow> fst (snd sm) \<noteq> snd (snd sm) \<Longrightarrow>
   \<exists>k. scan_ranges tuples cmp rs i sm = Inr k"
proof (induction rs arbitrary: i sm)
  case Nil
  show ?case by simp
next
  case (Cons r rs)
  from Cons.prems have r: "valid_range tuples r" "fst r \<noteq> snd r"
    and rs: "list_all (\<lambda>r. valid_range tuples r \<and> fst r \<noteq> snd r) rs"
    by simp_all
  let ?sm' = "if cmp (cursor_row tuples r) (cursor_row tuples (snd sm)) then (i, r) else sm"
  have "valid_range tuples (snd ?sm')" "fst (snd ?sm') \<noteq> snd (snd ?sm')"
    using r Cons.prems(2,3) by auto
  from Cons.IH [OF rs this] obtain k where "scan_ranges tuples cmp rs (Suc i) ?sm' = Inr k" ..
  then show ?case
    using r Cons.prems(2,3) by (simp add: deref_cursor)
qed

lemma min_tuple_range_succeeds:
  "list_all (\<lambda>r. valid_range tuples r \<and> fst r \<noteq> snd r) ps \<Longrightarrow> ps \<noteq> [] \<Longrightarrow>
   \<exists>k. min_tuple_range tuples cmp ps = Inr k \<and> k < length ps"
proof -
  assume ps: "list_all (\<lambda>r. valid_range tuples r \<and> fst r \<noteq> snd r) ps" "ps \<noteq> []"
  then obtain p rest where "ps = p # rest" by (cases ps) auto
  with ps scan_ranges_succeeds [of tuples rest "(0, p)" cmp 1]
  obtain k where "min_tuple_range tuples cmp ps = Inr k"
    by (auto simp: min_tuple_range_def)
  with min_tuple_range_bound [OF this] show ?thesis by blast
qed

lemma scan_ranges_min:
  assumes "strict_weak_order cmp"
    and "scan_ranges tuples cmp rs i (m, rm) = Inr k"
    and "i = length pre" and "m < i" and "pre ! m = rm"
    and "\<forall>j<i. \<not> cmp (cursor_row tuples (pre ! j)) (cursor_row tuples rm)"
    and "\<forall>j<m. cmp (cursor_row tuples rm) (cursor_row tuples (pre ! j))"
  shows "k < length (pre @ rs)
       \<and> (\<forall>j<length (pre @ rs).
             \<not> cmp (cursor_row tuples ((pre @ rs) ! j)) (cursor_row tuples ((pre @ rs) ! k)))
       \<and> (\<forall>j<k. cmp (cursor_row tuples ((pre @ rs) ! k)) (cursor_row tuples ((pre @ rs) ! j)))"
  using assms(2-)
proof (induction rs arbitrary: pre i m rm)
  case Nil
  then show ?case by auto
next
  case (Cons r rs)
  let ?a = "cursor_row tuples r" and ?b = "cursor_row tuples rm"
  from assms(1) have asym: "\<And>x y. cmp x y \<Longrightarrow> \<not> cmp y x"
    and trans: "\<And>x y z. \<not> cmp y x \<Longrightarrow> \<not> cmp z y \<Longrightarrow> \<not> cmp z x"
    unfolding strict_weak_order_def by blast+
  from Cons.prems(1) have
    step: "scan_ranges tuples cmp rs (Suc i) (if cmp ?a ?b then (i, r) else (m, rm)) = Inr k"
    by (auto split: if_splits sum.splits dest!: deref_Inr_cursor [of tuples "r"]
        deref_Inr_cursor [of tuples "rm"])
  have len: "Suc i = length (pre @ [r])"
    using Cons.prems(2) by simp
  have nth_old: "\<And>j. j < i \<Longrightarrow> (pre @ [r]) ! j = pre ! j"
    using Cons.prems(2) by (simp add: nth_append)
  have nth_new: "(pre @ [r]) ! i = r"
    using Cons.prems(2) by simp
  show ?case
  proof (cases "cmp ?a ?b")
    case True
    with step have step': "scan_ranges tuples cmp rs (Suc i) (i, r) = Inr k" by simp
    have A: "\<forall>j<Suc i. \<not> cmp (cursor_row tuples ((pre @ [r]) ! j)) ?a"
    proof (intro allI impI)
      fix j assume "j < Suc i"
      show "\<not> cmp (cursor_row tuples ((pre @ [r]) ! j)) ?a"
      proof (cases "j = i")
        case True
        with nth_new asym show ?thesis by auto
      next
        case False
        with \<open>j < Suc i\<close> have "j < i" by simp
        with Cons.prems(5) have "\<not> cmp (cursor_row tuples (pre ! j)) ?b" by simp
        with trans [OF asym [OF True]] nth_old [OF \<open>j < i\<close>] show ?thesis by simp
      qed
    qed
    have B: "\<forall>j<i. cmp ?a (cursor_row tuples ((pre @ [r]) ! j))"
    proof (intro allI impI)
      fix j assume "j < i"
      with Cons.prems(5) have "\<not> cmp (cursor_row tuples (pre ! j)) ?b" by simp
      with trans True
      have "cmp ?a (cursor_row tuples (pre ! j))" by blast
      with nth_old [OF \<open>j < i\<close>] show "cmp ?a (cursor_row tuples ((pre @ [r]) ! j))" by simp
    qed
    from Cons.IH [OF step' len _ nth_new A B] show ?thesis by simp
  next
    case False
    with step have step': "scan_ranges tuples cmp rs (Suc i) (m, rm) = Inr k" by simp
    have m: "m < Suc i" "(pre @ [r]) ! m = rm"
      using Cons.prems(3,4) nth_old by simp_all
    have A: "\<forall>j<Suc i. \<not> cmp (cursor_row tuples ((pre @ [r]) ! j)) ?b"
      using Cons.prems(5) False nth_old nth_new by (auto simp: less_Suc_eq)
    have B: "\<forall>j<m. cmp ?b (cursor_row tuples ((pre @ [r]) ! j))"
      using Cons.prems(3,6) nth_old by auto
    from Cons.IH [OF step' len m A B] show ?thesis by simp
  qed
qed

lemma min_tuple_range_min:
  assumes "strict_weak_order cmp" and "min_tuple_range tuples cmp ps = Inr k"
  shows "k < length ps
       \<and> (\<forall>j<length ps. \<not> cmp (cursor_row tuples (ps ! j)) (cursor_row tuples (ps ! k)))
       \<and> (\<forall>j<k. cmp (cursor_row tuples (ps ! k)) (cursor_row tuples (ps ! j)))"
proof (cases ps)
  case Nil
  with assms(2) show ?thesis by (simp add: min_tuple_range_def)
next
  case (Cons p rest)
  with assms(2) have scan: "scan_ranges tuples cmp rest 1 (0, p) = Inr k"
    by (simp add: min_tuple_range_def)
  from assms(1) have "\<not> cmp (cursor_row tuples p) (cursor_row tuples p)"
    unfolding strict_weak_order_def by blast
  with scan_ranges_min [OF assms(1) scan, of "[p]"] Cons show ?thesis by simp
qed

subsection \<open>The selection step and the drain on ranges inside \<open>tuples\<close>\<close>

lemma emit_smallest_live:
  assumes "live tuples st"
  shows "\<exists>k. k < length (partitions st) \<and> min_tuple_range tuples cmp (partitions st) = Inr k \<and>
           emit_smallest tuples cmp st = Inr (emit_at tuples st k)"
proof -
  from assms have all: "list_all (\<lambda>r. valid_range tuples r \<and> fst r \<noteq> snd r) (partitions st)"
    and ne: "partitions st \<noteq> []"
    by (simp_all add: live_def)
  from min_tuple_range_succeeds [OF all ne] obtain k where
    k: "min_tuple_range tuples cmp (partitions st) = Inr k" "k < length (partitions st)"
    by blast
  with all have "valid_range tuples (partitions st ! k)"
    "fst (partitions st ! k) \<noteq> snd (partitions st ! k)"
    by (simp_all add: list_all_length)
  from deref_cursor [OF this] k show ?thesis
    by (auto simp: emit_smallest_def emit_at_def Let_def)
qed

lemma emit_at_fields [simp]:
  "output_table (emit_at tuples st k) = output_table st @ [cursor_row tuples (partitions st ! k)]"
  "pmp (emit_at tuples st k) = pmp st + 1"
  "partitions (emit_at tuples st k) =
     (partitions st)[k := (fst (partitions st ! k) + 1, snd (partitions st ! k))]"
  "nonEmptyPartitions (emit_at tuples st k) = nonEmptyPartitions st"
  "tupleCnt (emit_at tuples st k) = tupleCnt st"
  "tupleSkipped (emit_at tuples st k) = tupleSkipped st"
  by (simp_all add: emit_at_def)

lemma drain_result:
  assumes "partitions st = r # rs" and "valid_range tuples r"
    and "limit = -1 \<or> tupleCnt st < limit"
  shows "drain tuples limit offset st =
           Inr (st\<lparr>partitions := (snd r, snd r) # rs,
                   tupleSkipped := tupleSkipped st + (snd r - fst r),
                   output_table := output_table st
                      @ drop (nat (offset - tupleSkipped st)) (slice tuples r),
                   pmp := pmp st
                      + length (drop (nat (offset - tupleSkipped st)) (slice tuples r))\<rparr>)"
  using assms
proof (induction "nat (snd r - fst r)" arbitrary: st r)
  case 0
  then have eq: "fst r = snd r" by (simp add: valid_range_def)
  with "0.prems"(2) have "slice tuples r = []" by (simp add: slice_empty_iff)
  moreover from eq "0.prems"(1) have "partitions st = (snd r, snd r) # rs"
    by (metis prod.collapse)
  ultimately show ?case
    using eq "0.prems"(1) by (simp add: drain.simps [of tuples limit offset st])
next
  case (Suc n)
  then have ne: "fst r \<noteq> snd r" by auto
  let ?r' = "(fst r + 1, snd r)"
  note sl = slice_advance [OF Suc.prems(2) ne]
  note dr = deref_cursor [OF Suc.prems(2) ne]
  have n: "n = nat (snd ?r' - fst ?r')" using Suc.hyps(2) by simp
  show ?case
  proof (cases "tupleSkipped st < offset")
    case True
    let ?st1 = "st\<lparr>partitions := ?r' # rs, tupleSkipped := tupleSkipped st + 1\<rparr>"
    have "drain tuples limit offset st = drain tuples limit offset ?st1"
      using Suc.prems(1,3) ne dr True by (simp add: drain.simps [of tuples limit offset st])
    moreover have "nat (offset - tupleSkipped st) = Suc (nat (offset - (tupleSkipped st + 1)))"
      using True by linarith
    moreover note Suc.hyps(1) [OF n, of ?st1] valid_range_advance [OF Suc.prems(2) ne] Suc.prems(3)
    ultimately show ?thesis
      by (simp add: sl)
  next
    case False
    let ?st1 = "st\<lparr>partitions := ?r' # rs, tupleSkipped := tupleSkipped st + 1,
                   output_table := output_table st @ [cursor_row tuples r],
                   pmp := pmp st + 1\<rparr>"
    have "drain tuples limit offset st = drain tuples limit offset ?st1"
      using Suc.prems(1,3) ne dr False by (simp add: drain.simps [of tuples limit offset st])
    moreover have "nat (offset - tupleSkipped st) = 0" "nat (offset - (tupleSkipped st + 1)) = 0"
      using False by linarith+
    moreover note Suc.hyps(1) [OF n, of ?st1] valid_range_advance [OF Suc.prems(2) ne] Suc.prems(3)
    ultimately show ?thesis
      by (simp add: sl)
  qed
qed

lemma drain_stopped:
  "partitions st \<noteq> [] \<Longrightarrow> \<not> (limit = -1 \<or> tupleCnt st < limit) \<Longrightarrow>
   drain tuples limit offset st = Inr st"
  by (cases "partitions st") (simp_all add: drain.simps [of tuples limit offset st])

subsection \<open>One pass of the loop\<close>

lemma loop_body_drain:
  assumes "loop_inv tuples st" and "length (partitions (erase_pass st)) = 1"
  shows "loop_body tuples cmp limit offset st =
           (case drain tuples limit offset (erase_pass st) of
              Inl e \<Rightarrow> Inl e
            | Inr st' \<Rightarrow> Inr (Return st'))"
  using loop_inv_erase_pass [OF assms(1)] assms(2)
  by (simp add: loop_body_def Let_def live_def)

lemma list_all_update:
  "list_all P xs \<Longrightarrow> P v \<Longrightarrow> list_all P (xs[k := v])"
  by (metis list_all_iff set_update_subset_insert subsetD insertE)

lemma loop_body_select:
  assumes "loop_inv tuples st" and "length (partitions (erase_pass st)) \<noteq> 1"
  shows "\<exists>k. k < length (partitions (erase_pass st))
           \<and> min_tuple_range tuples cmp (partitions (erase_pass st)) = Inr k
           \<and> loop_body tuples cmp limit offset st = Inr (Continue (emit_at tuples (erase_pass st) k))
           \<and> loop_inv tuples (emit_at tuples (erase_pass st) k)"
proof -
  let ?st1 = "erase_pass st"
  let ?ps = "partitions ?st1"
  note lv = loop_inv_erase_pass [OF assms(1)]
  from emit_smallest_live [OF lv, of cmp] obtain k where
    k: "k < length ?ps" "min_tuple_range tuples cmp ?ps = Inr k"
    and em: "emit_smallest tuples cmp ?st1 = Inr (emit_at tuples ?st1 k)"
    by blast
  let ?ps' = "?ps[k := (fst (?ps ! k) + 1, snd (?ps ! k))]"
  from lv have all: "list_all (\<lambda>r. valid_range tuples r \<and> fst r \<noteq> snd r) ?ps"
    and n: "nonEmptyPartitions ?st1 = length ?ps" and ne: "?ps \<noteq> []"
    by (simp_all add: live_def)
  from all k(1) have vk: "valid_range tuples (?ps ! k)" "fst (?ps ! k) \<noteq> snd (?ps ! k)"
    by (simp_all add: list_all_length)
  have body: "loop_body tuples cmp limit offset st = Inr (Continue (emit_at tuples ?st1 k))"
    using assms(2) n em by (simp add: loop_body_def Let_def)
  have valid: "list_all (valid_range tuples) ?ps'"
  proof (rule list_all_update)
    show "list_all (valid_range tuples) ?ps"
      using all by (simp add: list_all_iff)
    show "valid_range tuples (fst (?ps ! k) + 1, snd (?ps ! k))"
      by (rule valid_range_advance [OF vk])
  qed
  from ne assms(2) have "2 \<le> length ?ps"
    by (cases ?ps) (auto simp: Suc_le_eq)
  then have "(if k = 0 then 1 else 0) < length ?ps \<and> (if k = 0 then 1 else 0) \<noteq> k"
    by auto
  then obtain j where j: "j < length ?ps" "j \<noteq> k"
    by blast
  then have "?ps' ! j = ?ps ! j"
    by simp
  moreover from all j(1) have "fst (?ps ! j) \<noteq> snd (?ps ! j)"
    by (simp add: list_all_length)
  ultimately have "\<exists>r\<in>set ?ps'. fst r \<noteq> snd r"
    using j(1) by (metis length_list_update nth_mem)
  with valid n k body show ?thesis
    by (auto simp: loop_inv_def)
qed

subsection \<open>The limit\<close>

lemma tupleCnt_erase_pass [simp]: "tupleCnt (erase_pass st) = tupleCnt st"
  by (simp add: erase_pass_def split: prod.splits)

lemma tupleCnt_emit_smallest:
  "emit_smallest tuples cmp st = Inr st' \<Longrightarrow> tupleCnt st' = tupleCnt st"
  by (auto simp: emit_smallest_def Let_def split: sum.splits)

lemma drain_limit_irrelevant:
  "tupleCnt st = 0 \<Longrightarrow> 1 \<le> l \<Longrightarrow> drain tuples l offset st = drain tuples (-1) offset st"
proof (induction tuples l offset st rule: drain.induct)
  case (1 tuples limit offset st)
  show ?case
  proof (cases "partitions st")
    case Nil
    then show ?thesis
      by (simp add: drain.simps [of tuples limit offset st] drain.simps [of tuples "-1" offset st])
  next
    case (Cons r rs)
    show ?thesis
    proof (cases "deref tuples (fst r)")
      case (Inl e)
      with Cons "1.prems" show ?thesis
        by (simp add: drain.simps [of tuples limit offset st]
            drain.simps [of tuples "-1" offset st])
    next
      case (Inr t)
      with Cons "1.prems" "1.IH"(1) [OF Cons _ Inr] "1.IH"(2) [OF Cons _ Inr] show ?thesis
        by (simp add: drain.simps [of tuples limit offset st]
            drain.simps [of tuples "-1" offset st])
    qed
  qed
qed

lemma loop_body_limit_irrelevant:
  "tupleCnt st = 0 \<Longrightarrow> 1 \<le> l \<Longrightarrow> loop_body tuples cmp l offset st = loop_body tuples cmp (-1) offset st"
  by (simp add: loop_body_def Let_def drain_limit_irrelevant)

lemma loop_body_Continue_tupleCnt:
  "loop_body tuples cmp l offset st = Inr (Continue st') \<Longrightarrow> tupleCnt st' = tupleCnt st"
  by (auto simp: loop_body_def Let_def split: if_splits sum.splits dest: tupleCnt_emit_smallest)

lemma merge_loop_limit_irrelevant:
  "tupleCnt st = 0 \<Longrightarrow> 1 \<le> l \<Longrightarrow> merge_loop tuples cmp l offset st = merge_loop tuples cmp (-1) offset st"
proof (induction tuples cmp l offset st rule: merge_loop.induct)
  case (1 tuples cmp limit offset st)
  note eq = loop_body_limit_irrelevant [OF "1.prems", of tuples cmp offset]
  note unf = merge_loop.simps [of tuples cmp limit offset st]
    merge_loop.simps [of tuples cmp "-1" offset st]
  show ?case
  proof (cases "loop_body tuples cmp limit offset st")
    case (Inl e)
    moreover from Inl eq have "loop_body tuples cmp (-1) offset st = Inl e" by simp
    ultimately show ?thesis by (simp add: unf)
  next
    case (Inr fl)
    show ?thesis
    proof (cases fl)
      case (Return st')
      with Inr have b1: "loop_body tuples cmp limit offset st = Inr (Return st')" by simp
      with eq have b2: "loop_body tuples cmp (-1) offset st = Inr (Return st')" by simp
      show ?thesis by (simp add: unf b1 b2)
    next
      case (Continue st')
      with Inr have b1: "loop_body tuples cmp limit offset st = Inr (Continue st')" by simp
      with eq have b2: "loop_body tuples cmp (-1) offset st = Inr (Continue st')" by simp
      have "tupleCnt st' = 0"
        using loop_body_Continue_tupleCnt [OF b1] "1.prems"(1) by simp
      from "1.IH" [OF Inr Continue this "1.prems"(2)] show ?thesis
        by (simp add: unf b1 b2)
    qed
  qed
qed

lemma drain_limit_zero:
  "tupleCnt st = 0 \<Longrightarrow> partitions st \<noteq> [] \<Longrightarrow> drain tuples 0 offset st = Inr st"
  by (cases "partitions st") (simp_all add: drain.simps [of tuples 0 offset st])

lemma drain_no_partition:
  "partitions st = [] \<Longrightarrow> drain tuples limit offset st = Inl InvalidIterator"
  by (simp add: drain.simps [of tuples limit offset st])

lemma merge_loop_limit_zero:
  "tupleCnt st = 0 \<Longrightarrow>
   (case merge_loop tuples cmp 0 offset st of
      Inl e \<Rightarrow> merge_loop tuples cmp (-1) offset st = Inl e
    | Inr st0 \<Rightarrow> merge_loop tuples cmp (-1) offset st = drain tuples (-1) offset st0)"
proof (induction tuples cmp "0::int" offset st rule: merge_loop.induct)
  case (1 tuples cmp offset st)
  note unf = merge_loop.simps [of tuples cmp 0 offset st]
    merge_loop.simps [of tuples cmp "-1" offset st]
  let ?st1 = "erase_pass st"
  show ?case
  proof (cases "nonEmptyPartitions ?st1 = 1")
    case True
    show ?thesis
    proof (cases "partitions ?st1 = []")
      case True
      with \<open>nonEmptyPartitions ?st1 = 1\<close> show ?thesis
        by (simp add: unf loop_body_def Let_def drain_no_partition)
    next
      case False
      with \<open>nonEmptyPartitions ?st1 = 1\<close> "1.prems" show ?thesis
        by (simp add: unf loop_body_def Let_def drain_limit_zero split: sum.splits)
    qed
  next
    case False
    show ?thesis
    proof (cases "emit_smallest tuples cmp ?st1")
      case (Inl e)
      with False show ?thesis by (simp add: unf loop_body_def Let_def)
    next
      case (Inr st')
      with False have b1: "loop_body tuples cmp 0 offset st = Inr (Continue st')"
        and b2: "loop_body tuples cmp (-1) offset st = Inr (Continue st')"
        by (simp_all add: loop_body_def Let_def)
      have cnt: "tupleCnt st' = 0"
        using loop_body_Continue_tupleCnt [OF b1] "1.prems" by simp
      have m0: "merge_loop tuples cmp 0 offset st = merge_loop tuples cmp 0 offset st'"
        and m1: "merge_loop tuples cmp (-1) offset st = merge_loop tuples cmp (-1) offset st'"
        by (simp_all add: unf b1 b2)
      from "1.hyps" [OF b1 refl cnt] show ?thesis
        unfolding m0 m1 .
    qed
  qed
qed

subsection \<open>The loop returns\<close>

lemma sum_list_filter_nonzero:
  "(\<Sum>r\<leftarrow>filter (\<lambda>r. fst r \<noteq> snd r) ps. snd r - fst r) = (\<Sum>r\<leftarrow>ps. snd r - (fst r :: int))"
  by (induction ps) auto

lemma rows_consumed_erase_pass [simp]:
  "rows_consumed tuples (erase_pass st) = rows_consumed tuples st"
  by (simp add: rows_consumed_def partitions_erase_pass sum_list_filter_nonzero)

lemma sum_list_map_update:
  "k < length ps \<Longrightarrow> (\<Sum>r\<leftarrow>ps[k := v]. g r) = (\<Sum>r\<leftarrow>ps. g r) - g (ps ! k) + (g v :: int)"
proof (induction ps arbitrary: k)
  case Nil
  then show ?case by simp
next
  case (Cons p ps)
  then show ?case by (cases k) auto
qed

lemma rows_consumed_emit_at:
  "k < length (partitions st) \<Longrightarrow>
   rows_consumed tuples (emit_at tuples st k) = rows_consumed tuples st + 1"
  by (simp add: rows_consumed_def sum_list_map_update)

lemma sum_list_map_nonneg_int:
  "\<forall>x\<in>set ps. 0 \<le> g x \<Longrightarrow> 0 \<le> (\<Sum>x\<leftarrow>ps. (g x :: int))"
  by (induction ps) auto

lemma member_le_sum_list_int:
  "\<forall>x\<in>set ps. 0 \<le> g x \<Longrightarrow> r \<in> set ps \<Longrightarrow> g r \<le> (\<Sum>x\<leftarrow>ps. (g x :: int))"
proof (induction ps)
  case Nil
  then show ?case by simp
next
  case (Cons p ps)
  have "0 \<le> (\<Sum>x\<leftarrow>ps. g x)"
    using Cons.prems(1) by (simp add: sum_list_map_nonneg_int)
  moreover have "0 \<le> g p"
    using Cons.prems(1) by simp
  ultimately show ?case
    using Cons by auto
qed

lemma rows_consumed_less:
  assumes "loop_inv tuples st"
  shows "rows_consumed tuples st < int (length tuples)"
proof -
  from assms obtain r where r: "r \<in> set (partitions st)" "fst r \<noteq> snd r"
    and all: "list_all (valid_range tuples) (partitions st)"
    by (auto simp: loop_inv_def)
  have nonneg: "\<forall>x\<in>set (partitions st). 0 \<le> snd x - fst x"
    using all by (auto simp: list_all_iff valid_range_def)
  have "0 < snd r - fst r"
    using nonneg r by fastforce
  also have "snd r - fst r \<le> (\<Sum>x\<leftarrow>partitions st. snd x - fst x)"
    by (rule member_le_sum_list_int [OF nonneg r(1)])
  finally show ?thesis
    by (simp add: rows_consumed_def)
qed

lemma drain_returns:
  assumes "live tuples st"
  shows "\<exists>st'. drain tuples limit offset st = Inr st'"
proof -
  from assms obtain r rs where "partitions st = r # rs" "valid_range tuples r"
    by (cases "partitions st") (auto simp: live_def)
  then show ?thesis
    using drain_result [of st r rs tuples limit offset] drain_stopped [of st limit tuples offset]
    by (cases "limit = -1 \<or> tupleCnt st < limit") auto
qed

lemma merge_loop_bounded_returns:
  "loop_inv tuples st \<Longrightarrow> int (length tuples) - rows_consumed tuples st \<le> int fuel \<Longrightarrow>
   \<exists>st'. merge_loop_bounded fuel tuples cmp limit offset st = Some (Inr st')"
proof (induction fuel arbitrary: st)
  case 0
  with rows_consumed_less [OF "0.prems"(1)] show ?case by simp
next
  case (Suc fuel)
  show ?case
  proof (cases "length (partitions (erase_pass st)) = 1")
    case True
    from drain_returns [OF loop_inv_erase_pass [OF Suc.prems(1)], of limit offset]
      loop_body_drain [OF Suc.prems(1) True, of cmp limit offset]
    show ?thesis by auto
  next
    case False
    from loop_body_select [OF Suc.prems(1) False, of cmp limit offset] obtain k where
      k: "k < length (partitions (erase_pass st))"
      and body: "loop_body tuples cmp limit offset st =
                   Inr (Continue (emit_at tuples (erase_pass st) k))"
      and inv: "loop_inv tuples (emit_at tuples (erase_pass st) k)"
      by blast
    have "int (length tuples) - rows_consumed tuples (emit_at tuples (erase_pass st) k) \<le> int fuel"
      using Suc.prems(2) by (simp add: rows_consumed_emit_at [OF k])
    from Suc.IH [OF inv this] body show ?thesis by simp
  qed
qed

lemma merge_loop_bounded_sound:
  "merge_loop_bounded fuel tuples cmp limit offset st = Some res \<Longrightarrow>
   merge_loop tuples cmp limit offset st = res"
proof (induction fuel arbitrary: st)
  case 0
  then show ?case by simp
next
  case (Suc fuel)
  then show ?case
    by (auto simp: merge_loop.simps [of tuples cmp limit offset st] split: sum.splits flow.splits)
qed

lemma merge_loop_returns:
  assumes "loop_inv tuples st"
  shows "\<exists>st'. merge_loop tuples cmp limit offset st = Inr st'"
proof -
  let ?fuel = "nat (int (length tuples) - rows_consumed tuples st)"
  have "int (length tuples) - rows_consumed tuples st \<le> int ?fuel" by simp
  from merge_loop_bounded_returns [OF assms this] merge_loop_bounded_sound
  show ?thesis by blast
qed

subsection \<open>The state in which the loop is entered\<close>

lemma initial_state_parts:
  "\<exists>st. initial_state (staged parts) (boundaries parts) out p = Inr st
       \<and> list_all (valid_range (staged parts)) (partitions st)
       \<and> map (slice (staged parts)) (partitions st) = parts
       \<and> nonEmptyPartitions st = length (partitions st)
       \<and> tupleCnt st = 0 \<and> tupleSkipped st = 0 \<and> output_table st = out \<and> pmp st = p"
proof -
  from make_ranges_parts [of "[]" parts] obtain ps where
    ps: "make_ranges (int (length (staged parts))) 0 (boundaries parts) = Inr ps"
        "list_all (valid_range (staged parts)) ps" "map (slice (staged parts)) ps = parts"
    by (auto simp: staged_def)
  from ps(3) have "length ps = length parts"
    by (metis length_map)
  with ps show ?thesis
    by (simp add: initial_state_def boundaries_def)
qed

lemma sum_list_slices:
  "list_all (valid_range tuples) ps \<Longrightarrow>
   (\<Sum>r\<leftarrow>ps. snd r - fst r) = int (length (concat (map (slice tuples) ps)))"
  by (induction ps) (auto simp: length_slice)

lemma initial_state_wellformed:
  assumes "wellformed tuples counts" and "counts \<noteq> []"
  shows "\<exists>st. initial_state tuples counts out p = Inr st \<and> loop_inv tuples st
           \<and> rows_consumed tuples st = 0
           \<and> tupleCnt st = 0 \<and> tupleSkipped st = 0 \<and> output_table st = out \<and> pmp st = p"
proof -
  from wellformed_parts [OF assms(1)] obtain parts where
    parts: "tuples = staged parts" "counts = boundaries parts" "[] \<notin> set parts"
    by blast
  from initial_state_parts [of parts out p] parts(1,2) obtain st where
    st: "initial_state tuples counts out p = Inr st"
        "list_all (valid_range tuples) (partitions st)"
        "map (slice tuples) (partitions st) = parts"
        "nonEmptyPartitions st = length (partitions st)"
        "tupleCnt st = 0" "tupleSkipped st = 0" "output_table st = out" "pmp st = p"
    by auto
  from assms(2) parts(2) have "parts \<noteq> []"
    by (auto simp: boundaries_def)
  with st(3) obtain r where r: "r \<in> set (partitions st)"
    by (cases "partitions st") auto
  with st(3) have "slice tuples r \<in> set parts"
    by (metis image_eqI set_map)
  with parts(3) have "slice tuples r \<noteq> []" by metis
  moreover from st(2) r have "valid_range tuples r"
    by (simp add: list_all_iff)
  ultimately have "fst r \<noteq> snd r"
    by (simp add: slice_empty_iff)
  with r st(2,4) have "loop_inv tuples st"
    by (auto simp: loop_inv_def)
  moreover have "rows_consumed tuples st = 0"
    using sum_list_slices [OF st(2)] st(3) parts(1)
    by (simp add: rows_consumed_def staged_def)
  ultimately show ?thesis
    using st by blast
qed

subsection \<open>The calls of \<open>min_tuple_range\<close>\<close>

lemma make_ranges_Inr_sum:
  "make_ranges len b cs = Inr ps \<Longrightarrow> cs \<noteq> [] \<Longrightarrow> b + sum_list cs = len"
proof (induction cs arbitrary: b ps)
  case Nil
  then show ?case by simp
next
  case (Cons c cs)
  show ?case
  proof (cases "cs = []")
    case True
    with Cons.prems(1) show ?thesis by (auto simp: Let_def split: if_splits)
  next
    case False
    with Cons.prems(1) obtain rs where "make_ranges len (b + c) cs = Inr rs"
      by (auto simp: Let_def split: sum.splits)
    from Cons.IH [OF this False] show ?thesis by simp
  qed
qed

lemma initial_state_Inr_wellformed:
  assumes "initial_state tuples counts out p = Inr st" and "counts \<noteq> []"
    and "list_all (\<lambda>c. 0 < c) counts"
  shows "wellformed tuples counts"
proof -
  from assms(1) obtain ps where "make_ranges (int (length tuples)) 0 counts = Inr ps"
    by (auto simp: initial_state_def split: sum.splits)
  from make_ranges_Inr_sum [OF this assms(2)] assms(3) show ?thesis
    by (simp add: wellformed_def)
qed

lemma loop_body_Continue_inv:
  assumes "loop_inv tuples st" and "loop_body tuples cmp limit offset st = Inr (Continue st')"
  shows "loop_inv tuples st'"
proof (cases "length (partitions (erase_pass st)) = 1")
  case True
  from loop_body_drain [OF assms(1) True, of cmp limit offset] assms(2) show ?thesis
    by (auto split: sum.splits)
next
  case False
  from loop_body_select [OF assms(1) False, of cmp limit offset] assms(2) show ?thesis
    by auto
qed

lemma min_tuple_range_called_live:
  "min_tuple_range_called tuples cmp limit offset st ps \<Longrightarrow> loop_inv tuples st \<Longrightarrow>
   ps \<noteq> [] \<and> list_all (\<lambda>r. valid_range tuples r \<and> fst r \<noteq> snd r) ps"
proof (induction rule: min_tuple_range_called.induct)
  case (this_pass st)
  from loop_inv_erase_pass [OF this_pass.prems] show ?case
    by (simp add: live_def)
next
  case (later_pass st st' ps)
  from later_pass.IH [OF loop_body_Continue_inv [OF later_pass.prems later_pass.hyps(1)]]
  show ?case .
qed

subsection \<open>Rows inserted, counted down and consumed\<close>

lemma live_single:
  assumes "live tuples st" and "length (partitions st) = 1"
  shows "\<exists>r. partitions st = [r] \<and> valid_range tuples r \<and> fst r \<noteq> snd r"
proof -
  from assms(2) obtain r where "partitions st = [r]"
    by (cases "partitions st") auto
  with assms(1) show ?thesis by (simp add: live_def)
qed

lemma merge_loop_counts:
  "loop_inv tuples st \<Longrightarrow> tupleSkipped st = 0 \<Longrightarrow>
   merge_loop tuples cmp limit offset st = Inr st' \<Longrightarrow>
   \<exists>ys. output_table st' = output_table st @ ys \<and> pmp st' = pmp st + length ys
      \<and> rows_consumed tuples st'
           = rows_consumed tuples st + int (length ys) + max 0 (min (tupleSkipped st') offset)"
proof (induction tuples cmp limit offset st rule: merge_loop.induct)
  case (1 tuples cmp limit offset st)
  note unf = merge_loop.simps [of tuples cmp limit offset st]
  let ?st1 = "erase_pass st"
  show ?case
  proof (cases "length (partitions ?st1) = 1")
    case True
    note body = loop_body_drain [OF "1.prems"(1) True, of cmp limit offset]
    from live_single [OF loop_inv_erase_pass [OF "1.prems"(1)] True] obtain r where
      r: "partitions ?st1 = [r]" "valid_range tuples r" "fst r \<noteq> snd r"
      by blast
    have cons1: "rows_consumed tuples st = int (length tuples) - (snd r - fst r)"
      using rows_consumed_erase_pass [of tuples st] r(1)
      by (simp add: rows_consumed_def del: rows_consumed_erase_pass)
    show ?thesis
    proof (cases "limit = -1 \<or> tupleCnt ?st1 < limit")
      case True
      let ?ys = "drop (nat offset) (slice tuples r)"
      from drain_result [OF r(1,2) True, of offset] "1.prems"(2)
      have "drain tuples limit offset ?st1 =
              Inr (?st1\<lparr>partitions := [(snd r, snd r)],
                       tupleSkipped := snd r - fst r,
                       output_table := output_table st @ ?ys,
                       pmp := pmp st + length ?ys\<rparr>)"
        by simp
      with body "1.prems"(3)
      have st': "st' = ?st1\<lparr>partitions := [(snd r, snd r)],
                       tupleSkipped := snd r - fst r,
                       output_table := output_table st @ ?ys,
                       pmp := pmp st + length ?ys\<rparr>"
        by (simp add: unf)
      have "int (length ?ys) + max 0 (min (snd r - fst r) offset) = snd r - fst r"
        using length_slice [OF r(2)] by (auto simp: min_def max_def)
      with st' cons1 show ?thesis
        by (simp add: rows_consumed_def)
    next
      case False
      from drain_stopped [OF _ False, of tuples offset] r(1)
      have "drain tuples limit offset ?st1 = Inr ?st1" by simp
      with body "1.prems"(3) have "st' = ?st1" by (simp add: unf)
      with "1.prems"(2) show ?thesis by simp
    qed
  next
    case False
    from loop_body_select [OF "1.prems"(1) False, of cmp limit offset] obtain k where
      k: "k < length (partitions ?st1)"
      and body: "loop_body tuples cmp limit offset st = Inr (Continue (emit_at tuples ?st1 k))"
      and inv: "loop_inv tuples (emit_at tuples ?st1 k)"
      by blast
    from body "1.prems"(3)
    have run: "merge_loop tuples cmp limit offset (emit_at tuples ?st1 k) = Inr st'"
      by (simp add: unf)
    from "1.IH" [OF body refl inv _ run] "1.prems"(2) obtain ys where
      ys: "output_table st' = output_table (emit_at tuples ?st1 k) @ ys"
          "pmp st' = pmp (emit_at tuples ?st1 k) + length ys"
          "rows_consumed tuples st' = rows_consumed tuples (emit_at tuples ?st1 k)
             + int (length ys) + max 0 (min (tupleSkipped st') offset)"
      by auto
    let ?ys = "cursor_row tuples (partitions ?st1 ! k) # ys"
    from ys rows_consumed_emit_at [OF k, of tuples]
    have "output_table st' = output_table st @ ?ys \<and> pmp st' = pmp st + length ?ys
      \<and> rows_consumed tuples st'
           = rows_consumed tuples st + int (length ?ys) + max 0 (min (tupleSkipped st') offset)"
      by simp
    then show ?thesis by blast
  qed
qed

subsection \<open>A single partition\<close>

lemma min_tuple_range_single: "min_tuple_range tuples cmp [r] = Inr 0"
  by (simp add: min_tuple_range_def)

lemma kway_loop_single:
  assumes "partitions st = [r]" and "valid_range tuples r"
  shows "\<exists>st'. kway_loop tuples cmp st = Inr st'
           \<and> output_table st' = output_table st @ slice tuples r
           \<and> pmp st' = pmp st + length (slice tuples r)"
  using assms
proof (induction "nat (snd r - fst r)" arbitrary: st r)
  case 0
  then have eq: "fst r = snd r" by (simp add: valid_range_def)
  with "0.prems" have "partitions (erase_pass st) = []" "slice tuples r = []"
    by (simp_all add: partitions_erase_pass slice_empty_iff)
  then show ?case
    by (simp add: kway_loop.simps [of tuples cmp st] kway_body_def Let_def)
next
  case (Suc n)
  then have ne: "fst r \<noteq> snd r" by auto
  let ?st1 = "erase_pass st"
  let ?r' = "(fst r + 1, snd r)"
  from Suc.prems(1) ne have ps1: "partitions ?st1 = [r]"
    by (simp add: partitions_erase_pass)
  have em: "emit_smallest tuples cmp ?st1 = Inr (emit_at tuples ?st1 0)"
    using ps1 deref_cursor [OF Suc.prems(2) ne]
    by (simp add: emit_smallest_def emit_at_def min_tuple_range_single Let_def)
  have run: "kway_loop tuples cmp st = kway_loop tuples cmp (emit_at tuples ?st1 0)"
    using ps1 em by (simp add: kway_loop.simps [of tuples cmp st] kway_body_def Let_def)
  have ps2: "partitions (emit_at tuples ?st1 0) = [?r']"
    using ps1 by simp
  have n: "n = nat (snd ?r' - fst ?r')" using Suc.hyps(2) by simp
  from Suc.hyps(1) [OF n ps2 valid_range_advance [OF Suc.prems(2) ne]] obtain st' where
    "kway_loop tuples cmp (emit_at tuples ?st1 0) = Inr st'"
    "output_table st' = output_table (emit_at tuples ?st1 0) @ slice tuples ?r'"
    "pmp st' = pmp (emit_at tuples ?st1 0) + length (slice tuples ?r')"
    by blast
  with run ps1 slice_advance [OF Suc.prems(2) ne] show ?case
    by simp
qed

lemma initial_state_single:
  "initial_state tuples [int (length tuples)] out p =
     Inr \<lparr>partitions = [(0, int (length tuples))], nonEmptyPartitions = 1,
          tupleCnt = 0, tupleSkipped = 0, output_table = out, pmp = p\<rparr>"
  by (simp add: initial_state_def)

lemma slice_whole [simp]: "slice tuples (0, int (length tuples)) = tuples"
  by (simp add: slice_def)

subsection \<open>The merged output\<close>

lemma mset_concat_slices_advance:
  assumes "k < length ps" and "valid_range tuples (ps ! k)" and "fst (ps ! k) \<noteq> snd (ps ! k)"
  shows "mset (concat (map (slice tuples) ps)) =
           add_mset (cursor_row tuples (ps ! k))
             (mset (concat (map (slice tuples) (ps[k := (fst (ps ! k) + 1, snd (ps ! k))]))))"
proof -
  let ?r' = "(fst (ps ! k) + 1, snd (ps ! k))"
  have "ps = take k ps @ ps ! k # drop (Suc k) ps"
    using assms(1) by (simp add: id_take_nth_drop)
  then have "concat (map (slice tuples) ps) =
      concat (map (slice tuples) (take k ps)) @ slice tuples (ps ! k)
        @ concat (map (slice tuples) (drop (Suc k) ps))"
    by (metis concat.simps(2) concat_append list.simps(9) map_append)
  moreover have "concat (map (slice tuples) (ps[k := ?r'])) =
      concat (map (slice tuples) (take k ps)) @ slice tuples ?r'
        @ concat (map (slice tuples) (drop (Suc k) ps))"
    using assms(1) by (simp add: upd_conv_take_nth_drop)
  ultimately show ?thesis
    using slice_advance [OF assms(2,3)] by simp
qed

lemma sorted_under_Cons:
  "sorted_under cmp (x # xs) \<longleftrightarrow> (\<forall>y\<in>set xs. \<not> cmp y x) \<and> sorted_under cmp xs"
  by (simp add: sorted_under_def)

lemma sorted_slices_advance:
  assumes "list_all (sorted_under cmp) (map (slice tuples) ps)"
    and "k < length ps" and "valid_range tuples (ps ! k)" and "fst (ps ! k) \<noteq> snd (ps ! k)"
  shows "list_all (sorted_under cmp)
           (map (slice tuples) (ps[k := (fst (ps ! k) + 1, snd (ps ! k))]))"
proof -
  from assms(1,2) have "sorted_under cmp (slice tuples (ps ! k))"
    by (simp add: list_all_length)
  with slice_advance [OF assms(3,4)]
  have "sorted_under cmp (slice tuples (fst (ps ! k) + 1, snd (ps ! k)))"
    by (simp add: sorted_under_Cons)
  with assms(1) show ?thesis
    by (simp add: map_update list_all_update)
qed

lemma min_row_not_after:
  assumes "strict_weak_order cmp"
    and "list_all (\<lambda>r. valid_range tuples r \<and> fst r \<noteq> snd r) ps"
    and "list_all (sorted_under cmp) (map (slice tuples) ps)"
    and "min_tuple_range tuples cmp ps = Inr k"
    and "y \<in> set (concat (map (slice tuples) ps))"
  shows "\<not> cmp y (cursor_row tuples (ps ! k))"
proof -
  from assms(1) have trans: "\<And>x y z. \<not> cmp y x \<Longrightarrow> \<not> cmp z y \<Longrightarrow> \<not> cmp z x"
    unfolding strict_weak_order_def by blast
  from assms(5) obtain r where r: "r \<in> set ps" "y \<in> set (slice tuples r)"
    by auto
  then obtain j where j: "j < length ps" "ps ! j = r"
    by (auto simp: in_set_conv_nth)
  from min_tuple_range_min [OF assms(1,4)] j
  have head: "\<not> cmp (cursor_row tuples r) (cursor_row tuples (ps ! k))"
    by auto
  from assms(2) r(1) have v: "valid_range tuples r" "fst r \<noteq> snd r"
    by (simp_all add: list_all_iff)
  from assms(3) r(1) have "sorted_under cmp (slice tuples r)"
    by (simp add: list_all_iff)
  with slice_advance [OF v] r(2)
  have "y = cursor_row tuples r \<or> \<not> cmp y (cursor_row tuples r)"
    by (auto simp: sorted_under_Cons)
  with head trans show ?thesis by blast
qed

lemma merge_loop_merges:
  "loop_inv tuples st \<Longrightarrow> offset \<le> tupleSkipped st \<Longrightarrow>
   \<exists>st' ys. merge_loop tuples cmp (-1) offset st = Inr st'
      \<and> output_table st' = output_table st @ ys
      \<and> mset ys = mset (concat (map (slice tuples) (partitions st)))
      \<and> (strict_weak_order cmp \<longrightarrow>
           list_all (sorted_under cmp) (map (slice tuples) (partitions st)) \<longrightarrow>
           sorted_under cmp ys)"
proof (induction tuples cmp "-1 :: int" offset st rule: merge_loop.induct)
  case (1 tuples cmp offset st)
  note unf = merge_loop.simps [of tuples cmp "-1" offset st]
  let ?st1 = "erase_pass st"
  let ?ps = "partitions ?st1"
  note lv = loop_inv_erase_pass [OF "1.prems"(1)]
  from "1.prems"(1) have valid: "list_all (valid_range tuples) (partitions st)"
    by (simp add: loop_inv_def)
  note same = concat_slices_erase_pass [OF valid]
  have sorted1: "list_all (sorted_under cmp) (map (slice tuples) ?ps)"
    if "list_all (sorted_under cmp) (map (slice tuples) (partitions st))"
    using that by (simp add: partitions_erase_pass list_all_iff)
  show ?case
  proof (cases "length ?ps = 1")
    case True
    note body = loop_body_drain [OF "1.prems"(1) True, of cmp "-1" offset]
    from live_single [OF lv True] obtain r where
      r: "?ps = [r]" "valid_range tuples r" "fst r \<noteq> snd r"
      by blast
    have "nat (offset - tupleSkipped st) = 0"
      using "1.prems"(2) by simp
    with drain_result [OF r(1,2), of "-1" offset]
    obtain st' where st': "drain tuples (-1) offset ?st1 = Inr st'"
      "output_table st' = output_table st @ slice tuples r"
      by simp
    have "merge_loop tuples cmp (-1) offset st = Inr st'"
      using body st'(1) by (simp add: unf)
    moreover have "mset (slice tuples r) = mset (concat (map (slice tuples) (partitions st)))"
      using same r(1) by simp
    moreover have "sorted_under cmp (slice tuples r)"
      if "list_all (sorted_under cmp) (map (slice tuples) (partitions st))"
      using sorted1 [OF that] r(1) by simp
    ultimately show ?thesis
      using st'(2) by blast
  next
    case False
    from loop_body_select [OF "1.prems"(1) False, of cmp "-1" offset] obtain k where
      k: "k < length ?ps" "min_tuple_range tuples cmp ?ps = Inr k"
      and body: "loop_body tuples cmp (-1) offset st = Inr (Continue (emit_at tuples ?st1 k))"
      and inv: "loop_inv tuples (emit_at tuples ?st1 k)"
      by blast
    let ?x = "cursor_row tuples (?ps ! k)"
    let ?ps' = "?ps[k := (fst (?ps ! k) + 1, snd (?ps ! k))]"
    from lv have all: "list_all (\<lambda>r. valid_range tuples r \<and> fst r \<noteq> snd r) ?ps"
      by (simp add: live_def)
    with k(1) have vk: "valid_range tuples (?ps ! k)" "fst (?ps ! k) \<noteq> snd (?ps ! k)"
      by (simp_all add: list_all_length)
    from "1.hyps" [OF body refl inv] "1.prems"(2) obtain st' ys where
      run: "merge_loop tuples cmp (-1) offset (emit_at tuples ?st1 k) = Inr st'"
      and out: "output_table st' = output_table (emit_at tuples ?st1 k) @ ys"
      and ms: "mset ys = mset (concat (map (slice tuples) ?ps'))"
      and so: "strict_weak_order cmp \<longrightarrow>
                 list_all (sorted_under cmp) (map (slice tuples) ?ps') \<longrightarrow> sorted_under cmp ys"
      by auto
    have "merge_loop tuples cmp (-1) offset st = Inr st'"
      using body run by (simp add: unf)
    moreover have "output_table st' = output_table st @ (?x # ys)"
      using out by simp
    moreover have ms': "mset (?x # ys) = mset (concat (map (slice tuples) (partitions st)))"
      using mset_concat_slices_advance [OF k(1) vk] ms same by simp
    moreover have "sorted_under cmp (?x # ys)"
      if swo: "strict_weak_order cmp"
        and srt: "list_all (sorted_under cmp) (map (slice tuples) (partitions st))"
    proof -
      note s1 = sorted1 [OF srt]
      from so swo sorted_slices_advance [OF s1 k(1) vk] have "sorted_under cmp ys"
        by blast
      moreover have "\<not> cmp y ?x" if "y \<in> set ys" for y
      proof -
        from that have "y \<in># mset ys" by simp
        with ms have "y \<in> set (concat (map (slice tuples) ?ps'))"
          by (metis set_mset_mset)
        then have "y \<in># mset (concat (map (slice tuples) ?ps))"
          unfolding mset_concat_slices_advance [OF k(1) vk] by (metis set_mset_mset union_single_eq_member insert_iff set_mset_add_mset_insert)
        then have "y \<in> set (concat (map (slice tuples) ?ps))"
          by (metis set_mset_mset)
        from min_row_not_after [OF swo all s1 k(2) this] show ?thesis .
      qed
      ultimately show ?thesis
        by (simp add: sorted_under_Cons)
    qed
    ultimately show ?thesis
      by blast
  qed
qed

lemma merge_sort_parts:
  assumes "strict_weak_order cmp" and "list_all (sorted_under cmp) parts"
    and "parts = [] \<or> staged parts \<noteq> []"
  shows "\<exists>st ys. merge_sort (staged parts) (boundaries parts) cmp (-1) 0 out p = Inr st
            \<and> output_table st = out @ ys \<and> sorted_under cmp ys
            \<and> mset ys = mset (staged parts)"
proof (cases "parts = []")
  case True
  then show ?thesis
    by (simp add: merge_sort_def boundaries_def staged_def sorted_under_def)
next
  case False
  with assms(3) have rows: "staged parts \<noteq> []" by simp
  from False have counts: "boundaries parts \<noteq> []"
    by (simp add: boundaries_def)
  from initial_state_parts [of parts out p] obtain st where
    st: "initial_state (staged parts) (boundaries parts) out p = Inr st"
        "list_all (valid_range (staged parts)) (partitions st)"
        "map (slice (staged parts)) (partitions st) = parts"
        "nonEmptyPartitions st = length (partitions st)"
        "tupleSkipped st = 0" "output_table st = out"
    by blast
  from rows st(3) have "concat (map (slice (staged parts)) (partitions st)) \<noteq> []"
    by (simp add: staged_def)
  then obtain r where r: "r \<in> set (partitions st)" "slice (staged parts) r \<noteq> []"
    by auto
  with st(2) have "fst r \<noteq> snd r"
    by (auto simp: list_all_iff slice_empty_iff)
  with r(1) st(2,4) have inv: "loop_inv (staged parts) st"
    by (auto simp: loop_inv_def)
  from merge_loop_merges [OF inv, of 0 cmp] st(5) obtain st' ys where
    run: "merge_loop (staged parts) cmp (-1) 0 st = Inr st'"
    and out: "output_table st' = output_table st @ ys"
    and ms: "mset ys = mset (concat (map (slice (staged parts)) (partitions st)))"
    and so: "strict_weak_order cmp \<longrightarrow>
               list_all (sorted_under cmp) (map (slice (staged parts)) (partitions st)) \<longrightarrow>
               sorted_under cmp ys"
    by auto
  have "merge_sort (staged parts) (boundaries parts) cmp (-1) 0 out p = Inr st'"
    using counts st(1) run by (simp add: merge_sort_def)
  moreover have "output_table st' = out @ ys"
    using out st(6) by simp
  moreover have "sorted_under cmp ys"
    using so assms(1,2) st(3) by simp
  moreover have "mset ys = mset (staged parts)"
    using ms st(3) by (simp add: staged_def)
  ultimately show ?thesis by blast
qed

subsection \<open>The loading loop\<close>

lemma load_dependencies_counts:
  "previous \<le> int (length table) \<Longrightarrow> list_all (\<lambda>c. 0 < c) counts \<Longrightarrow>
   sum_list counts = previous \<Longrightarrow>
   load_dependencies eng table previous counts = (eng', table', counts') \<Longrightarrow>
   list_all (\<lambda>c. 0 < c) counts' \<and> sum_list counts' = int (length table')"
proof (induction eng table previous counts rule: load_dependencies.induct)
  case (1 eng table previousTupleCount partitionTupleCounts)
  obtain loadedDeps eng1 table1 where
    ld: "loadNextDependency eng table = (loadedDeps, eng1, table1)"
    by (cases "loadNextDependency eng table") auto
  then have grow: "int (length table) \<le> int (length table1)"
    by (auto simp: loadNextDependency_def split: list.splits)
  let ?cur = "int (length table1)"
  let ?grown = "?cur \<noteq> previousTupleCount"
  let ?counts = "if ?grown then partitionTupleCounts @ [?cur - previousTupleCount]
                 else partitionTupleCounts"
  let ?prev = "if ?grown then ?cur else previousTupleCount"
  have pos: "list_all (\<lambda>c. 0 < c) ?counts"
    using "1.prems"(1,2) grow by auto
  have sum: "sum_list ?counts = ?prev"
    using "1.prems"(3) by auto
  have le: "?prev \<le> int (length table1)"
    using "1.prems"(1) grow by auto
  have cur: "?prev = ?cur" by auto
  show ?case
  proof (cases "loadedDeps > 0")
    case True
    have "load_dependencies eng1 table1 ?prev ?counts = (eng', table', counts')"
      using "1.prems"(4) ld True
      by (simp add: load_dependencies.simps [of eng table] Let_def)
    from "1.IH" [OF ld [symmetric] refl refl refl refl refl True le pos sum this]
    show ?thesis .
  next
    case False
    have "load_dependencies eng table previousTupleCount partitionTupleCounts
            = (eng1, table1, ?counts)"
      unfolding load_dependencies.simps [of eng table previousTupleCount partitionTupleCounts]
        ld Let_def
      using False by simp
    then have res: "(eng1, table1, ?counts) = (eng', table', counts')"
      using "1.prems"(4) by (rule trans [OF sym])
    then have c: "counts' = ?counts" and t: "table' = table1"
      by blast+
    from sum cur have "sum_list ?counts = ?cur" by (rule trans)
    with pos have "list_all (\<lambda>c. 0 < c) ?counts \<and> sum_list ?counts = ?cur"
      by (rule conjI)
    then show ?thesis
      unfolding c t .
  qed
qed

lemma load_dependencies_answered:
  "previous = int (length table) \<Longrightarrow>
   load_dependencies eng table previous counts = (eng', table', counts') \<Longrightarrow>
   counts' = counts @ boundaries (filter (\<lambda>rows. rows \<noteq> []) (answered eng))
     \<and> table' = table @ staged (answered eng)"
proof (induction eng arbitrary: table previous counts)
  case Nil
  have "load_dependencies [] table previous counts = ([], table, counts)"
    using Nil.prems(1) by (subst load_dependencies.simps) (simp add: loadNextDependency_def)
  with Nil.prems(2) show ?case
    by (simp add: boundaries_def staged_def)
next
  case (Cons a eng)
  obtain rows loaded where a: "a = (rows, loaded)" by (cases a)
  let ?counts = "if rows \<noteq> [] then counts @ [int (length rows)] else counts"
  let ?prev = "int (length (table @ rows))"
  show ?case
  proof (cases "loaded > 0")
    case True
    have "load_dependencies (a # eng) table previous counts
            = load_dependencies eng (table @ rows) ?prev ?counts"
      using True Cons.prems(1) a
      by (subst load_dependencies.simps) (simp add: loadNextDependency_def)
    with Cons.prems(2)
    have "load_dependencies eng (table @ rows) ?prev ?counts = (eng', table', counts')"
      by simp
    from Cons.IH [OF refl this] True a show ?thesis
      by (simp add: boundaries_def staged_def)
  next
    case False
    have "load_dependencies (a # eng) table previous counts = (eng, table @ rows, ?counts)"
      using False Cons.prems(1) a
      by (subst load_dependencies.simps) (simp add: loadNextDependency_def)
    with Cons.prems(2) False a show ?thesis
      by (auto simp: boundaries_def staged_def)
  qed
qed

subsection \<open>Loading, then merging\<close>

text \<open>
  What the loading loop leaves is what the merge asks for: whatever batches the engine
  delivers, empty ones included, if each is sorted then \<open>merge_sort\<close> on the loaded table
  and Boundary List appends all their rows in sorted order.
\<close>

lemma concat_without_empty: "concat (filter (\<lambda>rows. rows \<noteq> []) xss) = concat xss"
  by (induction xss) auto

corollary loaded_batches_merged:
  assumes "strict_weak_order cmp" and "list_all (sorted_under cmp) (answered eng)"
    and "load_dependencies eng [] 0 [] = (eng', table', counts)"
  shows "\<exists>st ys. merge_sort table' counts cmp (-1) 0 out p = Inr st
            \<and> output_table st = out @ ys \<and> sorted_under cmp ys
            \<and> mset ys = mset (staged (answered eng))"
proof -
  let ?parts = "filter (\<lambda>rows. rows \<noteq> []) (answered eng)"
  from load_dependencies_answered [OF _ assms(3)]
  have counts: "counts = boundaries ?parts" and table: "table' = staged (answered eng)"
    by simp_all
  have same: "staged ?parts = staged (answered eng)"
    by (simp add: staged_def concat_without_empty)
  have sorted: "list_all (sorted_under cmp) ?parts"
    using assms(2) by (simp add: list_all_iff)
  have "?parts = [] \<or> staged ?parts \<noteq> []"
  proof (cases "?parts = []")
    case True
    then show ?thesis by simp
  next
    case False
    then obtain rows where "rows \<in> set ?parts"
      by (cases ?parts) auto
    then have "rows \<in> set ?parts" "rows \<noteq> []" by simp_all
    then have "concat ?parts \<noteq> []"
      by (metis concat_eq_Nil_conv)
    then show ?thesis by (simp add: staged_def)
  qed
  from merge_sort_parts [OF assms(1) sorted this, of out p] show ?thesis
    unfolding counts table same .
qed

subsection \<open>Tied rows keep the order of their partitions\<close>

lemma earlier_pairs_index:
  "a < b \<Longrightarrow> b < length xss \<Longrightarrow> x \<in> set (xss ! a) \<Longrightarrow> y \<in> set (xss ! b) \<Longrightarrow>
   (x, y) \<in> earlier_pairs xss"
proof (induction xss arbitrary: a b)
  case Nil
  then show ?case by simp
next
  case (Cons xs xss)
  from Cons.prems(1) obtain b' where b: "b = Suc b'" by (cases b) auto
  show ?case
  proof (cases a)
    case 0
    from Cons.prems(2,4) b have "y \<in> set (concat xss)"
      by (auto intro: nth_mem)
    with Cons.prems(3) 0 show ?thesis by simp
  next
    case (Suc a')
    with Cons.prems b have "(x, y) \<in> earlier_pairs xss"
      by (intro Cons.IH [of a' b']) auto
    then show ?thesis by simp
  qed
qed

lemma earlier_pairs_filter:
  "earlier_pairs (filter (\<lambda>xs. xs \<noteq> []) xss) = earlier_pairs xss"
proof (induction xss)
  case Nil
  show ?case by simp
next
  case (Cons xs xss)
  have "set (concat (filter (\<lambda>xs. xs \<noteq> []) xss)) = set (concat xss)"
    by (simp add: concat_without_empty)
  with Cons show ?case by auto
qed

lemma set_concat_update:
  "k < length xss \<Longrightarrow> xss ! k = x0 # rest \<Longrightarrow>
   set (concat xss) = insert x0 (set (concat (xss[k := rest])))"
proof (induction xss arbitrary: k)
  case Nil
  then show ?case by simp
next
  case (Cons xs xss)
  then show ?case by (cases k) auto
qed

lemma earlier_pairs_update:
  "k < length xss \<Longrightarrow> xss ! k = x0 # rest \<Longrightarrow> (x, y) \<in> earlier_pairs xss \<Longrightarrow>
   (x, y) \<in> earlier_pairs (xss[k := rest])
   \<or> (x = x0 \<and> y \<in> set (concat (xss[k := rest])))
   \<or> (y = x0 \<and> (\<exists>a<k. x \<in> set (xss ! a)))"
proof (induction xss arbitrary: k)
  case Nil
  then show ?case by simp
next
  case (Cons xs xss)
  show ?case
  proof (cases k)
    case 0
    with Cons.prems show ?thesis by auto
  next
    case (Suc k')
    with Cons.prems(1,2) have k': "k' < length xss" "xss ! k' = x0 # rest"
      by simp_all
    note sc = set_concat_update [OF k']
    from Cons.prems(3) consider
      (here) "x \<in> set xs" "y \<in> set (concat xss)" | (there) "(x, y) \<in> earlier_pairs xss"
      by auto
    then show ?thesis
    proof cases
      case here
      from here(2) sc have "y = x0 \<or> y \<in> set (concat (xss[k' := rest]))" by auto
      then show ?thesis
      proof
        assume "y = x0"
        moreover have "\<exists>a<k. x \<in> set ((xs # xss) ! a)"
          using here(1) Suc by (intro exI [of _ 0]) simp
        ultimately show ?thesis by blast
      next
        assume "y \<in> set (concat (xss[k' := rest]))"
        with here(1) Suc show ?thesis by simp
      qed
    next
      case there
      from Cons.IH [OF k' there] show ?thesis
      proof (elim disjE conjE exE)
        assume "(x, y) \<in> earlier_pairs (xss[k' := rest])"
        with Suc show ?thesis by simp
      next
        assume "x = x0" "y \<in> set (concat (xss[k' := rest]))"
        with Suc show ?thesis by simp
      next
        fix a assume "y = x0" "a < k'" "x \<in> set (xss ! a)"
        then have "Suc a < k \<and> x \<in> set ((xs # xss) ! Suc a)"
          using Suc by simp
        with \<open>y = x0\<close> show ?thesis by blast
      qed
    qed
  qed
qed

lemma slices_filter:
  "list_all (valid_range tuples) ps \<Longrightarrow>
   map (slice tuples) (filter (\<lambda>r. fst r \<noteq> snd r) ps)
     = filter (\<lambda>xs. xs \<noteq> []) (map (slice tuples) ps)"
  by (induction ps) (auto simp: slice_empty_iff)

lemma merge_loop_stable:
  "loop_inv tuples st \<Longrightarrow> offset \<le> tupleSkipped st \<Longrightarrow> strict_weak_order cmp \<Longrightarrow>
   list_all (sorted_under cmp) (map (slice tuples) (partitions st)) \<Longrightarrow>
   merge_loop tuples cmp (-1) offset st = Inr st' \<Longrightarrow>
   output_table st' = output_table st @ ys \<Longrightarrow>
   (x, y) \<in> earlier_pairs (map (slice tuples) (partitions st)) \<Longrightarrow>
   \<not> cmp x y \<Longrightarrow> \<not> cmp y x \<Longrightarrow>
   \<exists>us vs ws. ys = us @ x # vs @ y # ws"
proof (induction tuples cmp "-1 :: int" offset st arbitrary: ys rule: merge_loop.induct)
  case (1 tuples cmp offset st)
  note unf = merge_loop.simps [of tuples cmp "-1" offset st]
  note swo = "1.prems"(3)
  let ?st1 = "erase_pass st"
  let ?ps = "partitions ?st1"
  let ?xss = "map (slice tuples) ?ps"
  note lv = loop_inv_erase_pass [OF "1.prems"(1)]
  from "1.prems"(1) have valid: "list_all (valid_range tuples) (partitions st)"
    by (simp add: loop_inv_def)
  have xss: "?xss = filter (\<lambda>xs. xs \<noteq> []) (map (slice tuples) (partitions st))"
    by (simp add: partitions_erase_pass slices_filter [OF valid])
  have pair: "(x, y) \<in> earlier_pairs ?xss"
    using "1.prems"(7) by (simp only: xss earlier_pairs_filter)
  have sorted1: "list_all (sorted_under cmp) ?xss"
    using "1.prems"(4) by (simp add: partitions_erase_pass list_all_iff)
  show ?case
  proof (cases "length ?ps = 1")
    case True
    then obtain r where "?ps = [r]"
      by (cases ?ps) auto
    with pair show ?thesis by simp
  next
    case False
    from loop_body_select [OF "1.prems"(1) False, of cmp "-1" offset] obtain k where
      k: "k < length ?ps" "min_tuple_range tuples cmp ?ps = Inr k"
      and body: "loop_body tuples cmp (-1) offset st = Inr (Continue (emit_at tuples ?st1 k))"
      and inv: "loop_inv tuples (emit_at tuples ?st1 k)"
      by blast
    let ?st2 = "emit_at tuples ?st1 k"
    let ?x0 = "cursor_row tuples (?ps ! k)"
    let ?r' = "(fst (?ps ! k) + 1, snd (?ps ! k))"
    from lv have all: "list_all (\<lambda>r. valid_range tuples r \<and> fst r \<noteq> snd r) ?ps"
      by (simp add: live_def)
    with k(1) have vk: "valid_range tuples (?ps ! k)" "fst (?ps ! k) \<noteq> snd (?ps ! k)"
      by (simp_all add: list_all_length)
    have skipped: "offset \<le> tupleSkipped ?st2"
      using "1.prems"(2) by simp
    have run: "merge_loop tuples cmp (-1) offset ?st2 = Inr st'"
      using body "1.prems"(5) by (simp add: unf)
    from merge_loop_merges [OF inv skipped, of cmp] run obtain ys2 where
      out2: "output_table st' = output_table ?st2 @ ys2"
      and ms: "mset ys2 = mset (concat (map (slice tuples) (partitions ?st2)))"
      by auto
    from out2 "1.prems"(6) have ys: "ys = ?x0 # ys2"
      by simp
    have xss2: "map (slice tuples) (partitions ?st2) = ?xss[k := slice tuples ?r']"
      by (simp add: map_update)
    have sorted2: "list_all (sorted_under cmp) (map (slice tuples) (partitions ?st2))"
      using sorted_slices_advance [OF sorted1 k(1) vk] by simp
    have kx: "k < length ?xss" "?xss ! k = ?x0 # slice tuples ?r'"
      using k(1) slice_advance [OF vk] by simp_all
    from earlier_pairs_update [OF kx pair] consider
      (rest) "(x, y) \<in> earlier_pairs (map (slice tuples) (partitions ?st2))"
      | (first) "x = ?x0" "y \<in> set (concat (map (slice tuples) (partitions ?st2)))"
      | (second) a where "y = ?x0" "a < k" "x \<in> set (?xss ! a)"
      unfolding xss2 by blast
    then show ?thesis
    proof cases
      case rest
      from "1.hyps" [OF body refl inv skipped swo sorted2 run out2 rest "1.prems"(8,9)]
      obtain us vs ws where "ys2 = us @ x # vs @ y # ws" by blast
      with ys have "ys = (?x0 # us) @ x # vs @ y # ws" by simp
      then show ?thesis by blast
    next
      case first
      from first(2) ms have "y \<in> set ys2"
        by (metis set_mset_mset)
      then obtain vs ws where "ys2 = vs @ y # ws"
        by (auto simp: in_set_conv_decomp)
      with ys first(1) have "ys = [] @ x # vs @ y # ws" by simp
      then show ?thesis by blast
    next
      case second
      from swo have irrefl: "\<And>u. \<not> cmp u u"
        and trans: "\<And>u v w. \<not> cmp v u \<Longrightarrow> \<not> cmp w v \<Longrightarrow> \<not> cmp w u"
        unfolding strict_weak_order_def by blast+
      from second(2) k(1) have a: "a < length ?ps" by simp
      with all have va: "valid_range tuples (?ps ! a)" "fst (?ps ! a) \<noteq> snd (?ps ! a)"
        by (simp_all add: list_all_length)
      from sorted1 a have "sorted_under cmp (slice tuples (?ps ! a))"
        by (simp add: list_all_length)
      with slice_advance [OF va] second(3) a
      have "x = cursor_row tuples (?ps ! a) \<or> \<not> cmp x (cursor_row tuples (?ps ! a))"
        by (auto simp: sorted_under_Cons)
      with irrefl have le: "\<not> cmp x (cursor_row tuples (?ps ! a))"
        by auto
      from min_tuple_range_min [OF swo k(2)] second(2)
      have "cmp ?x0 (cursor_row tuples (?ps ! a))"
        by simp
      with trans [OF le] have "cmp ?x0 x" by blast
      with second(1) "1.prems"(9) show ?thesis by simp
    qed
  qed
qed

lemma initial_state_rows:
  assumes "staged parts \<noteq> []"
  shows "\<exists>st. initial_state (staged parts) (boundaries parts) out p = Inr st
           \<and> loop_inv (staged parts) st
           \<and> map (slice (staged parts)) (partitions st) = parts
           \<and> tupleSkipped st = 0 \<and> output_table st = out \<and> pmp st = p"
proof -
  from initial_state_parts [of parts out p] obtain st where
    st: "initial_state (staged parts) (boundaries parts) out p = Inr st"
        "list_all (valid_range (staged parts)) (partitions st)"
        "map (slice (staged parts)) (partitions st) = parts"
        "nonEmptyPartitions st = length (partitions st)"
        "tupleSkipped st = 0" "output_table st = out" "pmp st = p"
    by blast
  from assms st(3) have "concat (map (slice (staged parts)) (partitions st)) \<noteq> []"
    by (simp add: staged_def)
  then obtain r where r: "r \<in> set (partitions st)" "slice (staged parts) r \<noteq> []"
    by auto
  with st(2) have "fst r \<noteq> snd r"
    by (auto simp: list_all_iff slice_empty_iff)
  with r(1) st(2,4) have "loop_inv (staged parts) st"
    by (auto simp: loop_inv_def)
  with st show ?thesis by blast
qed

lemma merge_sort_stable:
  assumes "strict_weak_order cmp" and "list_all (sorted_under cmp) parts"
    and "a < b" and "b < length parts" and "x \<in> set (parts ! a)" and "y \<in> set (parts ! b)"
    and "\<not> cmp x y" and "\<not> cmp y x"
  shows "\<exists>st us vs ws. merge_sort (staged parts) (boundaries parts) cmp (-1) 0 out p = Inr st
           \<and> output_table st = out @ us @ x # vs @ y # ws"
proof -
  from assms(4,6) have "parts ! b \<in> set parts" "parts ! b \<noteq> []"
    by auto
  then have rows: "staged parts \<noteq> []" and counts: "boundaries parts \<noteq> []"
    by (auto simp: staged_def boundaries_def)
  from initial_state_rows [OF rows, of out p] obtain st where
    st: "initial_state (staged parts) (boundaries parts) out p = Inr st"
        "loop_inv (staged parts) st"
        "map (slice (staged parts)) (partitions st) = parts"
        "tupleSkipped st = 0" "output_table st = out"
    by blast
  from merge_loop_merges [OF st(2), of 0 cmp] st(4) obtain st' ys where
    run: "merge_loop (staged parts) cmp (-1) 0 st = Inr st'"
    and out: "output_table st' = output_table st @ ys"
    by auto
  have pair: "(x, y) \<in> earlier_pairs (map (slice (staged parts)) (partitions st))"
    unfolding st(3) by (rule earlier_pairs_index [OF assms(3-6)])
  have sorted: "list_all (sorted_under cmp) (map (slice (staged parts)) (partitions st))"
    unfolding st(3) by (rule assms(2))
  from merge_loop_stable [OF st(2) _ assms(1) sorted run out pair assms(7,8)] st(4)
  obtain us vs ws where "ys = us @ x # vs @ y # ws"
    by auto
  moreover have "merge_sort (staged parts) (boundaries parts) cmp (-1) 0 out p = Inr st'"
    using counts st(1) run by (simp add: merge_sort_def)
  ultimately show ?thesis
    using out st(5) by auto
qed

lemma loop_body_selects_first_smallest:
  assumes "strict_weak_order cmp" and "loop_inv tuples st"
    and "nonEmptyPartitions (erase_pass st) \<noteq> 1"
  shows "partitions (erase_pass st) = filter (\<lambda>r. fst r \<noteq> snd r) (partitions st)
       \<and> (\<exists>k<length (partitions (erase_pass st)).
             loop_body tuples cmp limit offset st
               = Inr (Continue (emit_at tuples (erase_pass st) k))
           \<and> (\<forall>j<length (partitions (erase_pass st)).
                 \<not> cmp (cursor_row tuples (partitions (erase_pass st) ! j))
                        (cursor_row tuples (partitions (erase_pass st) ! k)))
           \<and> (\<forall>j<k. cmp (cursor_row tuples (partitions (erase_pass st) ! k))
                          (cursor_row tuples (partitions (erase_pass st) ! j))))"
proof -
  from loop_inv_erase_pass [OF assms(2)] assms(3)
  have "length (partitions (erase_pass st)) \<noteq> 1"
    by (simp add: live_def)
  from loop_body_select [OF assms(2) this, of cmp limit offset] obtain k where
    k: "k < length (partitions (erase_pass st))"
       "min_tuple_range tuples cmp (partitions (erase_pass st)) = Inr k"
       "loop_body tuples cmp limit offset st = Inr (Continue (emit_at tuples (erase_pass st) k))"
    by blast
  from min_tuple_range_min [OF assms(1) k(2)] k(1,3) partitions_erase_pass [of st]
  show ?thesis by blast
qed

subsection \<open>The claims\<close>

text \<open>
  Claim C1 asks that the rows appended are \<open>drop offset\<close> then \<open>take limit\<close> of the merged
  sequence for any number of partitions, and \<open>[3, 4, 5]\<close> for the partitions \<open>[1, 3, 5]\<close>,
  \<open>[2, 4]\<close>, \<open>[6]\<close> with offset 2 and limit 3. The source applies offset and limit in the
  drain of the last partition only: on that input the selection step appends \<open>1, 2, 3, 4, 5\<close>
  unfiltered, and the drain then skips the \<open>6\<close> as the first of two rows to skip.
\<close>

theorem offset_limit_ignored_by_selection:
  "merge_sort (staged [[1, 3, 5], [2, 4], [6::int]]) (boundaries [[1, 3, 5], [2, 4], [6::int]])
      (<) 3 2 [] 0 =
     Inr \<lparr>partitions = [(6, 6)], nonEmptyPartitions = 1, tupleCnt = 0, tupleSkipped = 1,
          output_table = [1, 2, 3, 4, 5], pmp = 5\<rparr>"
  by (simp add: run_simps)

text \<open>
  Claim C2 asks that no more than \<open>limit\<close> rows are ever inserted. The drain tests
  \<open>tupleCnt < limit\<close>, but \<open>tupleCnt\<close> stays 0: a single partition of three rows with limit 1
  and offset 0 is inserted whole.
\<close>

theorem limit_exceeded_by_drain:
  "merge_sort [1, 2, 3::int] [3] (<) 1 0 [] 0 =
     Inr \<lparr>partitions = [(3, 3)], nonEmptyPartitions = 1, tupleCnt = 0, tupleSkipped = 3,
          output_table = [1, 2, 3], pmp = 3\<rparr>"
  by (simp add: run_simps)

lemma strict_weak_order_less_int: "strict_weak_order ((<) :: int \<Rightarrow> int \<Rightarrow> bool)"
  by (auto simp: strict_weak_order_def)

text \<open>
  Claim C3: for partitions that are each sorted under the comparator (a strict weak
  ordering), staged one after the other with their lengths as the Boundary List,
  \<open>merge_sort\<close> with the unbounded limit and offset 0 appends a sequence that is sorted
  under the comparator and has the same rows, with the same multiplicities, as the
  partitions together; the partitions \<open>[1, 3, 5]\<close>, \<open>[2, 4]\<close>, \<open>[6]\<close> give \<open>[1, 2, 3, 4, 5, 6]\<close>.
  The partitions must hold a row between them unless there is none at all: the loader
  records no partition without rows.
\<close>

theorem merge_sort_sorted_permutation:
  assumes "strict_weak_order cmp" and "list_all (sorted_under cmp) parts"
    and "parts = [] \<or> staged parts \<noteq> []"
  shows "(\<exists>st ys. merge_sort (staged parts) (boundaries parts) cmp (-1) 0 out p = Inr st
            \<and> output_table st = out @ ys \<and> sorted_under cmp ys
            \<and> mset ys = mset (staged parts))
       \<and> (\<exists>st. merge_sort (staged [[1, 3, 5], [2, 4], [6::int]])
                  (boundaries [[1, 3, 5], [2, 4], [6::int]]) (<) (-1) 0 [] 0 = Inr st
             \<and> output_table st = [1, 2, 3, 4, 5, 6])"
proof
  show "\<exists>st ys. merge_sort (staged parts) (boundaries parts) cmp (-1) 0 out p = Inr st
            \<and> output_table st = out @ ys \<and> sorted_under cmp ys
            \<and> mset ys = mset (staged parts)"
    by (rule merge_sort_parts [OF assms])
next
  show "\<exists>st. merge_sort (staged [[1, 3, 5], [2, 4], [6::int]])
                  (boundaries [[1, 3, 5], [2, 4], [6::int]]) (<) (-1) 0 [] 0 = Inr st
             \<and> output_table st = [1, 2, 3, 4, 5, 6]"
    by (simp add: run_simps)
qed

theorem merge_sort_sorted_permutation_witness:
  "strict_weak_order ((<) :: int \<Rightarrow> int \<Rightarrow> bool) \<and>
   list_all (sorted_under (<)) [[1, 3, 5], [2, 4], [6::int]] \<and>
   ([[1, 3, 5], [2, 4], [6::int]] = [] \<or> staged [[1, 3, 5], [2, 4], [6::int]] \<noteq> []) \<and>
   (\<exists>st ys. merge_sort (staged [[1, 3, 5], [2, 4], [6::int]])
        (boundaries [[1, 3, 5], [2, 4], [6::int]]) (<) (-1) 0 [] 0 = Inr st
      \<and> output_table st = [] @ ys \<and> sorted_under (<) ys
      \<and> mset ys = mset (staged [[1, 3, 5], [2, 4], [6::int]]))"
proof -
  have swo: "strict_weak_order ((<) :: int \<Rightarrow> int \<Rightarrow> bool)"
    by (rule strict_weak_order_less_int)
  have srt: "list_all (sorted_under (<)) [[1, 3, 5], [2, 4], [6::int]]"
    by (simp add: sorted_under_def)
  have rows: "[[1, 3, 5], [2, 4], [6::int]] = [] \<or> staged [[1, 3, 5], [2, 4], [6::int]] \<noteq> []"
    by (simp add: staged_def)
  from merge_sort_sorted_permutation [OF swo srt rows, of "[]" 0] swo srt rows
  show ?thesis by blast
qed

text \<open>
  Claim C4, for a comparator that is a strict weak ordering.

  The selection: \<open>min_tuple_range\<close> returns the first range of the list whose cursor row
  no other cursor row is before, that is, its row is strictly before the row of every
  range in front of it. So of two ranges with tied cursor rows (neither is before the
  other) the later one is never returned.

  The loop: a pass that does not take the fast path keeps the ranges that are not
  exhausted in their order, emits the cursor row of that first smallest range and moves
  only that cursor.

  The output: for partitions that are each sorted, with the unbounded limit and offset 0,
  whenever a row \<open>x\<close> of one partition and a row \<open>y\<close> of a partition loaded later are tied,
  \<open>x\<close> stands before \<open>y\<close> in the rows \<open>merge_sort\<close> appends.

  The scenario: partition A \<open>[(1, a)]\<close> loaded before partition B \<open>[(1, b)]\<close>, compared on
  the first field, gives \<open>[(1, a), (1, b)]\<close>.
\<close>

theorem tie_goes_to_earlier_partition:
  assumes "strict_weak_order cmp"
  shows "(min_tuple_range tuples cmp ps = Inr k \<longrightarrow>
            k < length ps
          \<and> (\<forall>j<length ps. \<not> cmp (cursor_row tuples (ps ! j)) (cursor_row tuples (ps ! k)))
          \<and> (\<forall>j<k. cmp (cursor_row tuples (ps ! k)) (cursor_row tuples (ps ! j)))
          \<and> (\<forall>i j. i < j \<and> j < length ps
                \<and> \<not> cmp (cursor_row tuples (ps ! i)) (cursor_row tuples (ps ! j))
                \<and> \<not> cmp (cursor_row tuples (ps ! j)) (cursor_row tuples (ps ! i))
                \<longrightarrow> k \<noteq> j))
       \<and> (loop_inv tuples st \<and> nonEmptyPartitions (erase_pass st) \<noteq> 1 \<longrightarrow>
            partitions (erase_pass st) = filter (\<lambda>r. fst r \<noteq> snd r) (partitions st)
          \<and> (\<exists>m<length (partitions (erase_pass st)).
                loop_body tuples cmp limit offset st
                  = Inr (Continue (emit_at tuples (erase_pass st) m))
              \<and> (\<forall>j<length (partitions (erase_pass st)).
                    \<not> cmp (cursor_row tuples (partitions (erase_pass st) ! j))
                           (cursor_row tuples (partitions (erase_pass st) ! m)))
              \<and> (\<forall>j<m. cmp (cursor_row tuples (partitions (erase_pass st) ! m))
                             (cursor_row tuples (partitions (erase_pass st) ! j)))))
       \<and> (list_all (sorted_under cmp) parts \<and> a < b \<and> b < length parts
            \<and> x \<in> set (parts ! a) \<and> y \<in> set (parts ! b) \<and> \<not> cmp x y \<and> \<not> cmp y x \<longrightarrow>
            (\<exists>st' us vs ws.
                merge_sort (staged parts) (boundaries parts) cmp (-1) 0 out p = Inr st'
              \<and> output_table st' = out @ us @ x # vs @ y # ws))
       \<and> (\<exists>st'. merge_sort (staged [[(1, ''a'')], [(1, ''b'')]])
                  (boundaries [[(1::int, ''a'')], [(1, ''b'')]]) first_field_less (-1) 0 [] 0
                = Inr st'
             \<and> output_table st' = [(1, ''a''), (1, ''b'')])"
proof (intro conjI impI)
  assume sel: "min_tuple_range tuples cmp ps = Inr k"
  note fm = min_tuple_range_min [OF assms sel]
  from fm show "k < length ps" by simp
  from fm show "\<forall>j<length ps. \<not> cmp (cursor_row tuples (ps ! j)) (cursor_row tuples (ps ! k))"
    by simp
  from fm show before: "\<forall>j<k. cmp (cursor_row tuples (ps ! k)) (cursor_row tuples (ps ! j))"
    by simp
  show "\<forall>i j. i < j \<and> j < length ps
          \<and> \<not> cmp (cursor_row tuples (ps ! i)) (cursor_row tuples (ps ! j))
          \<and> \<not> cmp (cursor_row tuples (ps ! j)) (cursor_row tuples (ps ! i))
          \<longrightarrow> k \<noteq> j"
    using before by blast
next
  assume pass: "loop_inv tuples st \<and> nonEmptyPartitions (erase_pass st) \<noteq> 1"
  note sel = loop_body_selects_first_smallest [OF assms, of tuples st limit offset]
  from sel pass
  show "partitions (erase_pass st) = filter (\<lambda>r. fst r \<noteq> snd r) (partitions st)"
    by blast
  from sel pass
  show "\<exists>m<length (partitions (erase_pass st)).
          loop_body tuples cmp limit offset st
            = Inr (Continue (emit_at tuples (erase_pass st) m))
        \<and> (\<forall>j<length (partitions (erase_pass st)).
              \<not> cmp (cursor_row tuples (partitions (erase_pass st) ! j))
                     (cursor_row tuples (partitions (erase_pass st) ! m)))
        \<and> (\<forall>j<m. cmp (cursor_row tuples (partitions (erase_pass st) ! m))
                       (cursor_row tuples (partitions (erase_pass st) ! j)))"
    by blast
next
  assume tie: "list_all (sorted_under cmp) parts \<and> a < b \<and> b < length parts
            \<and> x \<in> set (parts ! a) \<and> y \<in> set (parts ! b) \<and> \<not> cmp x y \<and> \<not> cmp y x"
  then show "\<exists>st' us vs ws.
                merge_sort (staged parts) (boundaries parts) cmp (-1) 0 out p = Inr st'
              \<and> output_table st' = out @ us @ x # vs @ y # ws"
    using merge_sort_stable [OF assms, of parts a b x y out p] by blast
next
  show "\<exists>st'. merge_sort (staged [[(1, ''a'')], [(1, ''b'')]])
                  (boundaries [[(1::int, ''a'')], [(1, ''b'')]]) first_field_less (-1) 0 [] 0
                = Inr st'
             \<and> output_table st' = [(1, ''a''), (1, ''b'')]"
    by (simp add: run_simps first_field_less_def)
qed

theorem tie_goes_to_earlier_partition_witness:
  "strict_weak_order first_field_less
   \<and> min_tuple_range [(0, ''x''), (1, ''a''), (1, ''b'')] first_field_less
        [(0, 1), (1, 2), (2, 3)] = Inr 0
   \<and> (0::nat) < length ([(0, 1), (1, 2), (2, 3)] :: tuple_range list)
   \<and> loop_inv [(0::int, ''x''), (1, ''a''), (1, ''b'')]
        \<lparr>partitions = [(1, 1), (1, 2), (2, 3)], nonEmptyPartitions = 3, tupleCnt = 0,
         tupleSkipped = 0, output_table = [(0, ''x'')], pmp = 1\<rparr>
   \<and> nonEmptyPartitions (erase_pass
        \<lparr>partitions = [(1, 1), (1, 2), (2, 3)], nonEmptyPartitions = 3, tupleCnt = 0,
         tupleSkipped = 0, output_table = [(0::int, ''x'')], pmp = 1\<rparr>) \<noteq> 1
   \<and> loop_body [(0, ''x''), (1, ''a''), (1, ''b'')] first_field_less (-1) 0
        \<lparr>partitions = [(1, 1), (1, 2), (2, 3)], nonEmptyPartitions = 3, tupleCnt = 0,
         tupleSkipped = 0, output_table = [(0, ''x'')], pmp = 1\<rparr>
       = Inr (Continue
        \<lparr>partitions = [(2, 2), (2, 3)], nonEmptyPartitions = 2, tupleCnt = 0,
         tupleSkipped = 0, output_table = [(0, ''x''), (1, ''a'')], pmp = 2\<rparr>)
   \<and> list_all (sorted_under first_field_less) [[(0, ''x'')], [(1, ''a'')], [(1, ''b'')]]
   \<and> (1::nat) < 2 \<and> 2 < length [[(0::int, ''x'')], [(1, ''a'')], [(1, ''b'')]]
   \<and> (1, ''a'') \<in> set ([[(0::int, ''x'')], [(1, ''a'')], [(1, ''b'')]] ! 1)
   \<and> (1, ''b'') \<in> set ([[(0::int, ''x'')], [(1, ''a'')], [(1, ''b'')]] ! 2)
   \<and> \<not> first_field_less (1, ''a'') (1, ''b'') \<and> \<not> first_field_less (1, ''b'') (1, ''a'')
   \<and> (\<exists>st' us vs ws.
          merge_sort (staged [[(0, ''x'')], [(1, ''a'')], [(1, ''b'')]])
            (boundaries [[(0::int, ''x'')], [(1, ''a'')], [(1, ''b'')]])
            first_field_less (-1) 0 [] 0
            = Inr st'
        \<and> output_table st' = [] @ us @ (1, ''a'') # vs @ (1, ''b'') # ws)"
proof -
  let ?tuples = "[(0::int, ''x''), (1, ''a''), (1, ''b'')]"
  let ?ps = "[(0, 1), (1, 2), (2, 3)] :: tuple_range list"
  let ?st = "\<lparr>partitions = [(1, 1), (1, 2), (2, 3)], nonEmptyPartitions = 3, tupleCnt = 0,
         tupleSkipped = 0, output_table = [(0::int, ''x'')], pmp = 1\<rparr>"
  let ?parts = "[[(0::int, ''x'')], [(1, ''a'')], [(1, ''b'')]]"
  have swo: "strict_weak_order first_field_less"
    by (auto simp: strict_weak_order_def first_field_less_def)
  note inst = tie_goes_to_earlier_partition [OF swo, where tuples = "?tuples" and ps = "?ps"
      and k = 0 and st = "?st" and limit = "-1" and offset = 0 and parts = "?parts"
      and a = 1 and b = 2 and x = "(1, ''a'')" and y = "(1, ''b'')" and out = "[]" and p = 0]
  have sel: "min_tuple_range ?tuples first_field_less ?ps = Inr 0"
    by (simp add: min_tuple_range_def deref_def first_field_less_def)
  have inv: "loop_inv ?tuples ?st"
    by (simp add: loop_inv_def valid_range_def)
  have n: "nonEmptyPartitions (erase_pass ?st) \<noteq> 1"
    by (simp add: erase_pass_def)
  have body: "loop_body ?tuples first_field_less (-1) 0 ?st
       = Inr (Continue
        \<lparr>partitions = [(2, 2), (2, 3)], nonEmptyPartitions = 2, tupleCnt = 0,
         tupleSkipped = 0, output_table = [(0, ''x''), (1, ''a'')], pmp = 2\<rparr>)"
    by (simp add: loop_body_def erase_pass_def emit_smallest_def min_tuple_range_def deref_def
        first_field_less_def)
  have srt: "list_all (sorted_under first_field_less) ?parts"
    by (simp add: sorted_under_def)
  have idx: "(1::nat) < 2" "2 < length ?parts" "(1, ''a'') \<in> set (?parts ! 1)"
    "(1, ''b'') \<in> set (?parts ! 2)"
    by simp_all
  have tie: "\<not> first_field_less (1, ''a'') (1, ''b'')" "\<not> first_field_less (1, ''b'') (1, ''a'')"
    by (simp_all add: first_field_less_def)
  from inst sel have l0: "(0::nat) < length ?ps" by blast
  from inst srt idx tie
  have outp: "\<exists>st' us vs ws.
          merge_sort (staged ?parts) (boundaries ?parts) first_field_less (-1) 0 [] 0 = Inr st'
        \<and> output_table st' = [] @ us @ (1, ''a'') # vs @ (1, ''b'') # ws"
    by blast
  from swo sel l0 inv n body srt idx tie outp show ?thesis
    by - (intro conjI; assumption)
qed

text \<open>
  Claim C5 says that the progress monitor is counted down once for every row consumed from
  a partition, skipped rows included. In the drain a row skipped for the offset leaves the
  loop body at \<open>continue\<close>, before the insertion and the countdown: of the three rows of a
  single partition drained with offset 2, all three are consumed and one is counted down.
\<close>

theorem skipped_row_not_counted_down:
  "merge_sort [1, 2, 3::int] [3] (<) (-1) 2 [] 0 =
     Inr \<lparr>partitions = [(3, 3)], nonEmptyPartitions = 1, tupleCnt = 0, tupleSkipped = 3,
          output_table = [3], pmp = 1\<rparr>
   \<and> rows_consumed [1, 2, 3::int]
        \<lparr>partitions = [(3, 3)], nonEmptyPartitions = 1, tupleCnt = 0, tupleSkipped = 3,
         output_table = [3::int], pmp = 1\<rparr> = 3
   \<and> int (pmp \<lparr>partitions = [(3, 3)], nonEmptyPartitions = 1, tupleCnt = 0, tupleSkipped = 3,
         output_table = [3::int], pmp = 1\<rparr>)
       \<noteq> rows_consumed [1, 2, 3::int]
        \<lparr>partitions = [(3, 3)], nonEmptyPartitions = 1, tupleCnt = 0, tupleSkipped = 3,
         output_table = [3::int], pmp = 1\<rparr>"
  by (simp add: run_simps rows_consumed_def)

text \<open>
  Claim C5 as the source has it: for a well-formed Boundary List the progress monitor is
  counted down exactly once for every row inserted into the output table, and the rows
  consumed are the rows inserted together with the rows the drain skipped for the offset,
  which are consumed without a countdown.
\<close>

theorem countdown_once_per_inserted_row:
  assumes "wellformed tuples counts"
  shows "\<exists>st' ys. merge_sort tuples counts cmp limit offset out p = Inr st'
           \<and> output_table st' = out @ ys \<and> pmp st' = p + length ys
           \<and> rows_consumed tuples st' = int (length ys) + max 0 (min (tupleSkipped st') offset)"
proof (cases "counts = []")
  case True
  with assms have "tuples = []" by (simp add: wellformed_def)
  with True show ?thesis
    by (simp add: merge_sort_def rows_consumed_def)
next
  case False
  from initial_state_wellformed [OF assms False, of out p] obtain st where
    st: "initial_state tuples counts out p = Inr st" "loop_inv tuples st"
        "rows_consumed tuples st = 0" "tupleSkipped st = 0" "output_table st = out" "pmp st = p"
    by blast
  from merge_loop_returns [OF st(2), of cmp limit offset] obtain st' where
    run: "merge_loop tuples cmp limit offset st = Inr st'" ..
  from merge_loop_counts [OF st(2,4) run] st(3,5,6) run st(1) False show ?thesis
    by (auto simp: merge_sort_def)
qed

theorem countdown_once_per_inserted_row_witness:
  "wellformed [1, 2, 3::int] [3] \<and>
   (\<exists>st' ys. merge_sort [1, 2, 3::int] [3] (<) (-1) 2 [] 0 = Inr st'
      \<and> output_table st' = [] @ ys \<and> pmp st' = 0 + length ys
      \<and> rows_consumed [1, 2, 3::int] st' = int (length ys) + max 0 (min (tupleSkipped st') 2))"
proof -
  have wf: "wellformed [1, 2, 3::int] [3]"
    by (simp add: wellformed_def)
  from wf countdown_once_per_inserted_row [OF wf, of "(<)" "-1" 2 "[]" 0] show ?thesis
    by blast
qed

text \<open>
  Claim C6: for a Boundary List with the single entry of one non-empty partition, with the
  unbounded limit and offset 0, \<open>merge_sort\<close> appends exactly the rows of that partition in
  their staging order, and so does the general path \<open>kway_merge\<close>, which sends the single
  partition through the selection step; both count down once per row.
\<close>

theorem single_partition_identity:
  assumes "tuples \<noteq> []"
  shows "(\<exists>st. merge_sort tuples [int (length tuples)] cmp (-1) 0 out p = Inr st
            \<and> output_table st = out @ tuples \<and> pmp st = p + length tuples)
       \<and> (\<exists>st. kway_merge tuples [int (length tuples)] cmp out p = Inr st
            \<and> output_table st = out @ tuples \<and> pmp st = p + length tuples)"
proof
  let ?st = "\<lparr>partitions = [(0, int (length tuples))], nonEmptyPartitions = 1,
          tupleCnt = 0, tupleSkipped = 0, output_table = out, pmp = p\<rparr>"
  have valid: "valid_range tuples (0, int (length tuples))"
    by (simp add: valid_range_def)
  have er: "erase_pass ?st = ?st"
    using assms by (simp add: erase_pass_def)
  have dr: "drain tuples (-1) 0 ?st =
          Inr (?st\<lparr>partitions := [(int (length tuples), int (length tuples))],
                  tupleSkipped := int (length tuples),
                  output_table := out @ tuples,
                  pmp := p + length tuples\<rparr>)"
    using drain_result [of ?st "(0, int (length tuples))" "[]" tuples "-1" 0, OF _ valid]
    by simp
  have "merge_loop tuples cmp (-1) 0 ?st =
          Inr (?st\<lparr>partitions := [(int (length tuples), int (length tuples))],
                  tupleSkipped := int (length tuples),
                  output_table := out @ tuples,
                  pmp := p + length tuples\<rparr>)"
    unfolding merge_loop.simps [of tuples cmp "-1" 0 ?st] loop_body_def Let_def er dr
    by simp
  then show "\<exists>st. merge_sort tuples [int (length tuples)] cmp (-1) 0 out p = Inr st
            \<and> output_table st = out @ tuples \<and> pmp st = p + length tuples"
    by (simp add: merge_sort_def initial_state_single)
next
  let ?st = "\<lparr>partitions = [(0, int (length tuples))], nonEmptyPartitions = 1,
          tupleCnt = 0, tupleSkipped = 0, output_table = out, pmp = p\<rparr>"
  have valid: "valid_range tuples (0, int (length tuples))"
    by (simp add: valid_range_def)
  from kway_loop_single [of ?st "(0, int (length tuples))" tuples cmp, OF _ valid]
  show "\<exists>st. kway_merge tuples [int (length tuples)] cmp out p = Inr st
            \<and> output_table st = out @ tuples \<and> pmp st = p + length tuples"
    by (simp add: kway_merge_def initial_state_single)
qed

theorem single_partition_identity_witness:
  "[2, 1, 3::int] \<noteq> [] \<and>
   (\<exists>st. merge_sort [2, 1, 3::int] [int (length [2, 1, 3::int])] (<) (-1) 0 [] 0 = Inr st
      \<and> output_table st = [] @ [2, 1, 3] \<and> pmp st = 0 + length [2, 1, 3::int]) \<and>
   (\<exists>st. kway_merge [2, 1, 3::int] [int (length [2, 1, 3::int])] (<) [] 0 = Inr st
      \<and> output_table st = [] @ [2, 1, 3] \<and> pmp st = 0 + length [2, 1, 3::int])"
proof -
  have ne: "[2, 1, 3::int] \<noteq> []" by simp
  from ne single_partition_identity [OF ne, of "(<)" "[]" 0] show ?thesis
    by blast
qed

text \<open>
  Claim C7: when the loading loop has ended, every entry of \<open>partitionTupleCounts\<close> is
  positive and the entries add up to the number of rows in the input table. When the table
  was empty before (as \<open>p_init\<close> creates it), the entries are exactly the sizes of the batches
  that brought rows, in the order of loading: a request that added no row left no entry.
\<close>

theorem boundary_list_after_loading:
  assumes "load_dependencies eng table 0 [] = (eng', table', counts)"
  shows "list_all (\<lambda>c. 0 < c) counts \<and> sum_list counts = int (length table')
       \<and> (table = [] \<longrightarrow>
            counts = boundaries (filter (\<lambda>rows. rows \<noteq> []) (answered eng))
            \<and> table' = staged (answered eng))"
proof -
  from load_dependencies_counts [OF _ _ _ assms]
  have "list_all (\<lambda>c. 0 < c) counts \<and> sum_list counts = int (length table')"
    by simp
  moreover have "counts = boundaries (filter (\<lambda>rows. rows \<noteq> []) (answered eng))
            \<and> table' = staged (answered eng)" if "table = []"
    using load_dependencies_answered [OF _ assms] that by simp
  ultimately show ?thesis by blast
qed

theorem boundary_list_after_loading_witness:
  "load_dependencies [([1, 3, 5::int], 1), ([], 1), ([2, 4], 1)] [] 0 [] = ([], [1, 3, 5, 2, 4], [3, 2])
   \<and> list_all (\<lambda>c. 0 < c) [3, 2::int] \<and> sum_list [3, 2::int] = int (length [1, 3, 5, 2, 4::int])
   \<and> ([] :: int list) = []
   \<and> [3, 2] = boundaries (filter (\<lambda>rows. rows \<noteq> [])
                  (answered [([1, 3, 5::int], 1), ([], 1), ([2, 4], 1)]))
   \<and> [1, 3, 5, 2, 4] = staged (answered [([1, 3, 5::int], 1), ([], 1), ([2, 4], 1)])"
proof -
  have run: "load_dependencies [([1, 3, 5::int], 1), ([], 1), ([2, 4], 1)] [] 0 []
               = ([], [1, 3, 5, 2, 4], [3, 2])"
    by (simp add: load_dependencies.simps loadNextDependency_def)
  from boundary_list_after_loading [OF run] run show ?thesis
    by blast
qed

text \<open>
  Claim C8: when every entry of the Boundary List is positive, every call of
  \<open>min_tuple_range\<close> made by \<open>merge_sort\<close> gets a list that is not empty and in which every
  range has its cursor before its end; so neither assertion of \<open>min_tuple_range\<close> fails and
  it returns a range of the list. (\<open>merge_sort\<close> enters the loop only with a Boundary List
  that is not empty, line 98, and only when the ranges could be built.)
\<close>

theorem min_tuple_range_assertions_hold:
  assumes "list_all (\<lambda>c. 0 < c) counts" and "counts \<noteq> []"
    and "initial_state tuples counts out p = Inr st"
    and "min_tuple_range_called tuples cmp limit offset st ps"
  shows "ps \<noteq> [] \<and> list_all (\<lambda>r. fst r \<noteq> snd r) ps
       \<and> (\<exists>k. min_tuple_range tuples cmp ps = Inr k \<and> k < length ps)"
proof -
  from initial_state_Inr_wellformed [OF assms(3,2,1)] have "wellformed tuples counts" .
  from initial_state_wellformed [OF this assms(2), of out p] assms(3) have "loop_inv tuples st"
    by auto
  from min_tuple_range_called_live [OF assms(4) this]
  have ps: "ps \<noteq> []" "list_all (\<lambda>r. valid_range tuples r \<and> fst r \<noteq> snd r) ps"
    by simp_all
  from ps(2) have "list_all (\<lambda>r. fst r \<noteq> snd r) ps"
    by (simp add: list_all_iff)
  with ps(1) min_tuple_range_succeeds [OF ps(2,1), of cmp] show ?thesis
    by blast
qed

theorem min_tuple_range_assertions_hold_witness:
  "list_all (\<lambda>c. 0 < c) [3, 2, 1::int] \<and> [3, 2, 1::int] \<noteq> [] \<and>
   initial_state [1, 3, 5, 2, 4, 6::int] [3, 2, 1] [] 0 =
     Inr \<lparr>partitions = [(0, 3), (3, 5), (5, 6)], nonEmptyPartitions = 3, tupleCnt = 0,
          tupleSkipped = 0, output_table = [], pmp = 0\<rparr> \<and>
   min_tuple_range_called [1, 3, 5, 2, 4, 6::int] (<) (-1) 0
     \<lparr>partitions = [(0, 3), (3, 5), (5, 6)], nonEmptyPartitions = 3, tupleCnt = 0,
      tupleSkipped = 0, output_table = [], pmp = 0\<rparr> [(0, 3), (3, 5), (5, 6)] \<and>
   [(0, 3), (3, 5), (5, 6)] \<noteq> ([] :: tuple_range list) \<and>
   list_all (\<lambda>r. fst r \<noteq> snd r) ([(0, 3), (3, 5), (5, 6)] :: tuple_range list) \<and>
   (\<exists>k. min_tuple_range [1, 3, 5, 2, 4, 6::int] (<) [(0, 3), (3, 5), (5, 6)] = Inr k
      \<and> k < length ([(0, 3), (3, 5), (5, 6)] :: tuple_range list))"
proof -
  let ?st = "\<lparr>partitions = [(0, 3), (3, 5), (5, 6)], nonEmptyPartitions = 3, tupleCnt = 0,
      tupleSkipped = 0, output_table = ([] :: int list), pmp = 0\<rparr>"
  have pos: "list_all (\<lambda>c. 0 < c) [3, 2, 1::int]" and ne: "[3, 2, 1::int] \<noteq> []"
    by simp_all
  have init: "initial_state [1, 3, 5, 2, 4, 6::int] [3, 2, 1] [] 0 = Inr ?st"
    by (simp add: initial_state_def)
  have er: "erase_pass ?st = ?st"
    by (simp add: erase_pass_def)
  have "min_tuple_range_called [1, 3, 5, 2, 4, 6::int] (<) (-1) 0 ?st (partitions (erase_pass ?st))"
    by (rule this_pass) (simp add: er)
  then have called: "min_tuple_range_called [1, 3, 5, 2, 4, 6::int] (<) (-1) 0 ?st
      [(0, 3), (3, 5), (5, 6)]"
    by (simp add: er)
  from min_tuple_range_assertions_hold [OF pos ne init called] pos ne init called
  show ?thesis by blast
qed

text \<open>
  Claim C9: for a Boundary List whose entries are positive and add up to the number of staged
  rows, \<open>merge_sort\<close> returns, and it returns normally. When the list is not empty the
  \<open>while (true)\<close> loop reaches its \<open>return\<close> within as many passes through its body as there
  are staged rows: every pass that goes round again has moved one cursor on by one row, and
  the pass that finds one range left drains it and returns.
\<close>

theorem merge_sort_returns:
  assumes "wellformed tuples counts"
  shows "\<exists>st'. merge_sort tuples counts cmp limit offset out p = Inr st'
           \<and> (counts \<noteq> [] \<longrightarrow>
                (\<exists>st. initial_state tuples counts out p = Inr st
                   \<and> merge_loop_bounded (length tuples) tuples cmp limit offset st
                        = Some (Inr st')))"
proof (cases "counts = []")
  case True
  then show ?thesis by (simp add: merge_sort_def)
next
  case False
  from initial_state_wellformed [OF assms False, of out p] obtain st where
    st: "initial_state tuples counts out p = Inr st" "loop_inv tuples st"
        "rows_consumed tuples st = 0"
    by blast
  from merge_loop_bounded_returns [OF st(2), of "length tuples" cmp limit offset] st(3)
  obtain st' where
    b: "merge_loop_bounded (length tuples) tuples cmp limit offset st = Some (Inr st')"
    by auto
  from merge_loop_bounded_sound [OF b] st(1) False
  have "merge_sort tuples counts cmp limit offset out p = Inr st'"
    by (simp add: merge_sort_def)
  with b st(1) show ?thesis by blast
qed

theorem merge_sort_returns_witness:
  "wellformed [1, 3, 5, 2, 4, 6::int] [3, 2, 1] \<and>
   (\<exists>st'. merge_sort [1, 3, 5, 2, 4, 6::int] [3, 2, 1] (<) 3 2 [] 0 = Inr st'
      \<and> [3, 2, 1::int] \<noteq> []
      \<and> (\<exists>st. initial_state [1, 3, 5, 2, 4, 6::int] [3, 2, 1] [] 0 = Inr st
             \<and> merge_loop_bounded (length [1, 3, 5, 2, 4, 6::int]) [1, 3, 5, 2, 4, 6::int]
                  (<) 3 2 st = Some (Inr st')))"
proof -
  have wf: "wellformed [1, 3, 5, 2, 4, 6::int] [3, 2, 1]"
    by (simp add: wellformed_def)
  from wf merge_sort_returns [OF wf, of "(<)" 3 2 "[]" 0] show ?thesis
    by blast
qed

text \<open>
  Claim C10: on every input, \<open>merge_sort\<close> with a limit \<open>l \<ge> 1\<close> does what it does with the
  unbounded limit \<open>-1\<close>. With limit 0 it does what the unbounded run does up to the entry of
  the drain and returns there: the unbounded run is the run with limit 0 followed by the
  drain, so the rows emitted while two or more partitions remained are all in the output.
  For the partitions \<open>[1, 3, 5]\<close>, \<open>[2, 4]\<close>, \<open>[6]\<close> these are \<open>1, 2, 3, 4, 5\<close>.
\<close>

theorem limit_matters_only_at_zero:
  "(1 \<le> l \<longrightarrow>
      merge_sort tuples counts cmp l offset out p = merge_sort tuples counts cmp (-1) offset out p)
   \<and> (if counts = [] then
        merge_sort tuples counts cmp 0 offset out p = merge_sort tuples counts cmp (-1) offset out p
      else
        (case merge_sort tuples counts cmp 0 offset out p of
           Inl e \<Rightarrow> merge_sort tuples counts cmp (-1) offset out p = Inl e
         | Inr st0 \<Rightarrow>
             merge_sort tuples counts cmp (-1) offset out p = drain tuples (-1) offset st0))
   \<and> merge_sort (staged [[1, 3, 5], [2, 4], [6::int]]) (boundaries [[1, 3, 5], [2, 4], [6::int]])
        (<) 0 0 [] 0 =
       Inr \<lparr>partitions = [(5, 6)], nonEmptyPartitions = 1, tupleCnt = 0, tupleSkipped = 0,
            output_table = [1, 2, 3, 4, 5], pmp = 5\<rparr>"
proof (intro conjI impI)
  assume "1 \<le> l"
  show "merge_sort tuples counts cmp l offset out p = merge_sort tuples counts cmp (-1) offset out p"
  proof (cases "initial_state tuples counts out p")
    case (Inl e)
    then show ?thesis by (simp add: merge_sort_def)
  next
    case (Inr st)
    then have "tupleCnt st = 0"
      by (auto simp: initial_state_def split: sum.splits)
    from merge_loop_limit_irrelevant [OF this \<open>1 \<le> l\<close>] Inr show ?thesis
      by (simp add: merge_sort_def)
  qed
next
  show "if counts = [] then
          merge_sort tuples counts cmp 0 offset out p = merge_sort tuples counts cmp (-1) offset out p
        else
          (case merge_sort tuples counts cmp 0 offset out p of
             Inl e \<Rightarrow> merge_sort tuples counts cmp (-1) offset out p = Inl e
           | Inr st0 \<Rightarrow>
               merge_sort tuples counts cmp (-1) offset out p = drain tuples (-1) offset st0)"
  proof (cases "counts = []")
    case True
    then show ?thesis by (simp add: merge_sort_def)
  next
    case False
    show ?thesis
    proof (cases "initial_state tuples counts out p")
      case (Inl e)
      with False show ?thesis by (simp add: merge_sort_def)
    next
      case (Inr st)
      then have "tupleCnt st = 0"
        by (auto simp: initial_state_def split: sum.splits)
      have m: "merge_sort tuples counts cmp lim offset out p = merge_loop tuples cmp lim offset st"
        for lim
        using False Inr by (simp add: merge_sort_def)
      from merge_loop_limit_zero [OF \<open>tupleCnt st = 0\<close>, of tuples cmp offset] False
      show ?thesis
        unfolding m by simp
    qed
  qed
next
  show "merge_sort (staged [[1, 3, 5], [2, 4], [6::int]]) (boundaries [[1, 3, 5], [2, 4], [6::int]])
          (<) 0 0 [] 0 =
        Inr \<lparr>partitions = [(5, 6)], nonEmptyPartitions = 1, tupleCnt = 0, tupleSkipped = 0,
             output_table = [1, 2, 3, 4, 5], pmp = 5\<rparr>"
    by (simp add: run_simps)
qed

theorem limit_matters_only_at_zero_witness:
  "(1::int) \<le> 3 \<and>
   merge_sort [1, 3, 5, 2, 4, 6::int] [3, 2, 1] (<) 3 2 [] 0 =
     merge_sort [1, 3, 5, 2, 4, 6::int] [3, 2, 1] (<) (-1) 2 [] 0 \<and>
   [3, 2, 1::int] \<noteq> [] \<and>
   merge_sort [1, 3, 5, 2, 4, 6::int] [3, 2, 1] (<) (-1) 2 [] 0 =
     drain [1, 3, 5, 2, 4, 6::int] (-1) 2
       \<lparr>partitions = [(5, 6)], nonEmptyPartitions = 1, tupleCnt = 0, tupleSkipped = 0,
        output_table = [1, 2, 3, 4, 5], pmp = 5\<rparr>"
proof -
  have zero: "merge_sort [1, 3, 5, 2, 4, 6::int] [3, 2, 1] (<) 0 2 [] 0 =
      Inr \<lparr>partitions = [(5, 6)], nonEmptyPartitions = 1, tupleCnt = 0, tupleSkipped = 0,
           output_table = [1, 2, 3, 4, 5], pmp = 5\<rparr>"
    by (simp add: run_simps)
  from limit_matters_only_at_zero [of 3 "[1, 3, 5, 2, 4, 6::int]" "[3, 2, 1]" "(<)" 2 "[]" 0]
  show ?thesis
    unfolding zero by simp
qed

end
